theory Spec2Isabelle
  imports Main "HOL-Library.Word"
begin

section \<open>The board: millisecond clock and the radio's serial line\<close>

text \<open>
  The library is written for the Arduino Uno (AVR): \<open>unsigned int\<close> and \<open>uint16_t\<close> are
  16 bits, \<open>unsigned long\<close> is 32 bits, \<open>uint8_t\<close> is 8 bits and plain \<open>char\<close> is a
  signed 8-bit type. All counters are words of that width, so \<open>+\<close> and \<open>-\<close> wrap as the
  C arithmetic does.

  Every primitive of the driver busy-polls two things: \<open>millis()\<close> and
  \<open>radio_serial_->available()\<close>. The board state holds what these calls observe.
  \<^item> \<open>clock\<close> is the value the next call of \<open>millis()\<close> returns; the clock advances by one
    with every call, so two observations of the clock never agree and a polling loop whose
    deadline is fixed always ends.
  \<^item> \<open>radio_serial\<close> is the line as the successive polls find it: \<open>Some b\<close> is a byte
    waiting in the receive buffer, \<open>None\<close> a poll that finds the buffer still empty (the
    next byte has not arrived yet). A poll that finds nothing uses up its \<open>None\<close>; a
    waiting byte stays until it is read (the receive buffer is taken to be large enough,
    no byte is lost while it waits). When the list is used up no byte arrives any more.
\<close>

type_synonym byte = "8 word"

record arduino =
  clock :: "32 word"
  radio_serial :: "byte option list"

definition millis :: "arduino \<Rightarrow> 32 word \<times> arduino" where
  "millis s = (clock s, s\<lparr>clock := clock s + 1\<rparr>)"

definition available :: "arduino \<Rightarrow> bool \<times> arduino" where
  "available s =
     (case radio_serial s of
        [] \<Rightarrow> (False, s)
      | None # r \<Rightarrow> (False, s\<lparr>radio_serial := r\<rparr>)
      | Some b # r \<Rightarrow> (True, s))"

text \<open>\<open>SoftwareSerial::read()\<close> returns an \<open>int\<close>: the byte, or \<open>-1\<close> when nothing waits.\<close>

definition read :: "arduino \<Rightarrow> int \<times> arduino" where
  "read s =
     (case radio_serial s of
        Some b # r \<Rightarrow> (uint b, s\<lparr>radio_serial := r\<rparr>)
      | _ \<Rightarrow> (- 1, s))"

text \<open>The bytes a stretch of the line carries, the empty polls left out.\<close>

fun bytes_of :: "byte option list \<Rightarrow> byte list" where
  "bytes_of [] = []"
| "bytes_of (None # r) = bytes_of r"
| "bytes_of (Some b # r) = b # bytes_of r"

section \<open>Result codes and faults\<close>

datatype result_code =
  LITE_ESP8266_SUCCESS | LITE_ESP8266_FAILURE | LITE_ESP8266_TIMEOUT | LITE_ESP8266_LENGTH_EXCEEDED

text \<open>
  C has no bounds checks. A read or a write outside the object it belongs to is undefined
  behaviour; the model stops there with a fault instead of inventing a value.
\<close>

datatype fault = ProgmemOverread | BufferOverrun | StringOverread

section \<open>Strings in program memory\<close>

text \<open>
  A response string \<open>p\<close> is the array \<open>p @ [0]\<close> in flash. \<open>strlen_P\<close> counts up to the
  first zero byte; \<open>pgm_read_byte_near\<close> reads one byte of the array.
\<close>

definition strlen_P :: "byte list \<Rightarrow> nat" where
  "strlen_P p = length (takeWhile (\<lambda>c. c \<noteq> 0) p)"

definition pgm_read_byte_near :: "byte list \<Rightarrow> nat \<Rightarrow> byte option" where
  "pgm_read_byte_near p i =
     (if i < length p then Some (p ! i) else if i = length p then Some 0 else None)"

section \<open>read_for_response\<close>

text \<open>
  One pass through the \<open>while\<close> loop of \<open>read_for_response\<close>: the test of the deadline and
  the body. The loop state is \<open>matched_chars\<close> and the board.
\<close>

datatype 'st step = Next 'st | Done result_code 'st | Crash fault

definition read_for_response_iter ::
  "byte list \<Rightarrow> 8 word \<Rightarrow> 32 word \<Rightarrow> 8 word \<times> arduino \<Rightarrow> (8 word \<times> arduino) step" where
  "read_for_response_iter p response_length deadline st =
     (case st of (matched_chars, s) \<Rightarrow>
        (case millis s of (t, s1) \<Rightarrow>
           if t < deadline then
             (case available s1 of (av, s2) \<Rightarrow>
                if av then
                  (case read s2 of (c, s3) \<Rightarrow>
                     (case pgm_read_byte_near p (unat matched_chars) of
                        None \<Rightarrow> Crash ProgmemOverread
                      | Some e \<Rightarrow>
                          if c = uint e then
                            (let matched_chars' = matched_chars + 1 in
                             if matched_chars' = response_length
                             then Done LITE_ESP8266_SUCCESS (matched_chars', s3)
                             else Next (matched_chars', s3))
                          else Next (0, s3)))
                else Next (matched_chars, s2))
           else Done LITE_ESP8266_TIMEOUT (matched_chars, s1)))"

lemma clock_succ:
  assumes "(t :: 32 word) < d"
  shows "unat (t + 1) = Suc (unat t)"
proof -
  have a: "unat t < unat d" using assms by (simp add: word_less_nat_alt)
  have b: "unat d < 2 ^ 32" using unsigned_less [of d] by simp
  have "unat (t + 1) = (unat t + 1) mod 2 ^ 32" by (simp add: unat_word_ariths)
  with a b show ?thesis by simp
qed

lemma clock_tick: "(t :: 32 word) < d \<Longrightarrow> unat d - unat (t + 1) < unat d - unat t"
  using clock_succ [of t d] by (simp add: word_less_nat_alt)

lemma read_for_response_iter_Next:
  "read_for_response_iter p rl d (mc, s) = Next (mc', s') \<Longrightarrow>
     clock s < d \<and> clock s' = clock s + 1"
  by (auto simp: read_for_response_iter_def millis_def available_def read_def Let_def
      split: if_splits list.splits option.splits)

function read_for_response_loop ::
  "byte list \<Rightarrow> 8 word \<Rightarrow> 32 word \<Rightarrow> 8 word \<times> arduino \<Rightarrow> fault + result_code \<times> arduino" where
  "read_for_response_loop p response_length deadline st =
     (case read_for_response_iter p response_length deadline st of
        Next st' \<Rightarrow> read_for_response_loop p response_length deadline st'
      | Done r st' \<Rightarrow> Inr (r, snd st')
      | Crash f \<Rightarrow> Inl f)"
  by pat_completeness auto
termination
proof (relation "measure (\<lambda>(p, rl, d, st). unat d - unat (clock (snd st)))", simp, goal_cases)
  case (1 p rl d st st')
  obtain mc s mc' s' where st: "st = (mc, s)" "st' = (mc', s')"
    by (cases st, cases st') auto
  from 1 st have "clock s < d \<and> clock s' = clock s + 1"
    using read_for_response_iter_Next by metis
  then show ?case using st clock_tick by simp
qed

declare read_for_response_loop.simps [simp del]

definition read_for_response :: "byte list \<Rightarrow> 16 word \<Rightarrow> arduino \<Rightarrow> fault + result_code \<times> arduino" where
  "read_for_response progmem_response_string timeout_ms s =
     (let matched_chars = 0;
          response_length = of_nat (strlen_P progmem_response_string)
      in case millis s of (start_time, s1) \<Rightarrow>
           read_for_response_loop progmem_response_string response_length
             (start_time + ucast timeout_ms) (matched_chars, s1))"

text \<open>
  The loop after its first \<open>k\<close> passes: the loop state then, or how the loop ended if
  it ended earlier. This is the same sequence of states that \<open>read_for_response_loop\<close>
  runs through.
\<close>

fun read_for_response_after ::
  "nat \<Rightarrow> byte list \<Rightarrow> 8 word \<Rightarrow> 32 word \<Rightarrow> 8 word \<times> arduino \<Rightarrow> (8 word \<times> arduino) step" where
  "read_for_response_after 0 p response_length deadline st = Next st"
| "read_for_response_after (Suc k) p response_length deadline st =
     (case read_for_response_iter p response_length deadline st of
        Next st' \<Rightarrow> read_for_response_after k p response_length deadline st'
      | Done r st' \<Rightarrow> Done r st'
      | Crash e \<Rightarrow> Crash e)"

section \<open>read_for_responses\<close>

text \<open>
  The second half of the loop body: the check and update of the "fail" case, reached
  when the "pass" case did not return.
\<close>

definition read_for_responses_fail_case ::
  "byte list \<Rightarrow> 8 word \<Rightarrow> byte \<Rightarrow> 8 word \<Rightarrow> 8 word \<Rightarrow> arduino \<Rightarrow>
     (8 word \<times> 8 word \<times> arduino) step" where
  "read_for_responses_fail_case f fail_response_length next_character pass_matched_chars
       fail_matched_characters s =
     (case pgm_read_byte_near f (unat fail_matched_characters) of
        None \<Rightarrow> Crash ProgmemOverread
      | Some e \<Rightarrow>
          if sint next_character = uint e then
            (let fail_matched_characters' = fail_matched_characters + 1 in
             if fail_matched_characters' = fail_response_length
             then Done LITE_ESP8266_FAILURE (pass_matched_chars, fail_matched_characters', s)
             else Next (pass_matched_chars, fail_matched_characters', s))
          else Next (pass_matched_chars, 0, s))"

text \<open>
  \<open>next_character\<close> is a \<open>char\<close>, signed on this target, and it is compared with the
  \<open>uint8_t\<close> that \<open>pgm_read_byte_near\<close> returns: both are promoted to \<open>int\<close>, the first
  by sign extension (\<open>sint\<close>), the second without (\<open>uint\<close>).
\<close>

definition read_for_responses_iter ::
  "byte list \<Rightarrow> byte list \<Rightarrow> 8 word \<Rightarrow> 8 word \<Rightarrow> 32 word \<Rightarrow> 8 word \<times> 8 word \<times> arduino \<Rightarrow>
     (8 word \<times> 8 word \<times> arduino) step" where
  "read_for_responses_iter p f pass_response_length fail_response_length deadline st =
     (case st of (pass_matched_chars, fail_matched_characters, s) \<Rightarrow>
        (case millis s of (t, s1) \<Rightarrow>
           if t < deadline then
             (case available s1 of (av, s2) \<Rightarrow>
                if av then
                  (case read s2 of (c, s3) \<Rightarrow>
                     (let next_character = (word_of_int c :: byte) in
                      case pgm_read_byte_near p (unat pass_matched_chars) of
                        None \<Rightarrow> Crash ProgmemOverread
                      | Some e \<Rightarrow>
                          if sint next_character = uint e then
                            (let pass_matched_chars' = pass_matched_chars + 1 in
                             if pass_matched_chars' = pass_response_length
                             then Done LITE_ESP8266_SUCCESS
                                    (pass_matched_chars', fail_matched_characters, s3)
                             else read_for_responses_fail_case f fail_response_length
                                    next_character pass_matched_chars' fail_matched_characters s3)
                          else read_for_responses_fail_case f fail_response_length
                                 next_character 0 fail_matched_characters s3))
                else Next (pass_matched_chars, fail_matched_characters, s2))
           else Done LITE_ESP8266_TIMEOUT (pass_matched_chars, fail_matched_characters, s1)))"

lemma read_for_responses_iter_Next:
  "read_for_responses_iter p f pl fl d (pc, fc, s) = Next (pc', fc', s') \<Longrightarrow>
     clock s < d \<and> clock s' = clock s + 1"
  by (auto simp: read_for_responses_iter_def read_for_responses_fail_case_def millis_def
      available_def read_def Let_def split: if_splits list.splits option.splits)

function read_for_responses_loop ::
  "byte list \<Rightarrow> byte list \<Rightarrow> 8 word \<Rightarrow> 8 word \<Rightarrow> 32 word \<Rightarrow> 8 word \<times> 8 word \<times> arduino \<Rightarrow>
     fault + result_code \<times> arduino" where
  "read_for_responses_loop p f pass_response_length fail_response_length deadline st =
     (case read_for_responses_iter p f pass_response_length fail_response_length deadline st of
        Next st' \<Rightarrow>
          read_for_responses_loop p f pass_response_length fail_response_length deadline st'
      | Done r st' \<Rightarrow> Inr (r, snd (snd st'))
      | Crash e \<Rightarrow> Inl e)"
  by pat_completeness auto
termination
proof (relation "measure (\<lambda>(p, f, pl, fl, d, st). unat d - unat (clock (snd (snd st))))",
    simp, goal_cases)
  case (1 p f pl fl d st st')
  obtain pc fc s pc' fc' s' where st: "st = (pc, fc, s)" "st' = (pc', fc', s')"
    by (cases st, cases st') auto
  from 1 st have "clock s < d \<and> clock s' = clock s + 1"
    using read_for_responses_iter_Next by metis
  then show ?case using st clock_tick by simp
qed

declare read_for_responses_loop.simps [simp del]

definition read_for_responses ::
  "byte list \<Rightarrow> byte list \<Rightarrow> 16 word \<Rightarrow> arduino \<Rightarrow> fault + result_code \<times> arduino" where
  "read_for_responses progmem_pass_string progmem_fail_string timeout_ms s =
     (let pass_matched_chars = 0; fail_matched_characters = 0;
          pass_response_length = of_nat (strlen_P progmem_pass_string);
          fail_response_length = of_nat (strlen_P progmem_fail_string)
      in case millis s of (start_time, s1) \<Rightarrow>
           read_for_responses_loop progmem_pass_string progmem_fail_string
             pass_response_length fail_response_length (start_time + ucast timeout_ms)
             (pass_matched_chars, fail_matched_characters, s1))"

section \<open>copy_serial_to_buffer\<close>

text \<open>
  The caller's buffer is the list of the bytes it holds, as long as the array really is.
  \<open>poke\<close> is the assignment \<open>buffer[i] = v\<close>.
\<close>

definition poke :: "byte list \<Rightarrow> nat \<Rightarrow> byte \<Rightarrow> fault + byte list" where
  "poke buffer i v = (if i < length buffer then Inr (buffer[i := v]) else Inl BufferOverrun)"

function copy_serial_to_buffer_loop ::
  "byte list \<Rightarrow> byte \<Rightarrow> 16 word \<Rightarrow> 32 word \<Rightarrow> 16 word \<Rightarrow> arduino \<Rightarrow>
     fault + result_code \<times> byte list \<times> arduino" where
  "copy_serial_to_buffer_loop buffer read_until max_bytes deadline bytes_read s =
     (case millis s of (t, s1) \<Rightarrow>
        if t < deadline then
          (case available s1 of (av, s2) \<Rightarrow>
             if av then
               (case read s2 of (c, s3) \<Rightarrow>
                  (case poke buffer (unat bytes_read) (word_of_int c) of
                     Inl e \<Rightarrow> Inl e
                   | Inr buffer1 \<Rightarrow>
                       if buffer1 ! unat bytes_read = read_until then
                         (case poke buffer1 (unat bytes_read) 0 of
                            Inl e \<Rightarrow> Inl e
                          | Inr buffer2 \<Rightarrow> Inr (LITE_ESP8266_SUCCESS, buffer2, s3))
                       else
                         (let bytes_read' = bytes_read + 1 in
                          if bytes_read' \<ge> max_bytes - 1 then
                            (case poke buffer1 (unat bytes_read') 0 of
                               Inl e \<Rightarrow> Inl e
                             | Inr buffer2 \<Rightarrow> Inr (LITE_ESP8266_LENGTH_EXCEEDED, buffer2, s3))
                          else copy_serial_to_buffer_loop buffer1 read_until max_bytes deadline
                                 bytes_read' s3)))
             else copy_serial_to_buffer_loop buffer read_until max_bytes deadline bytes_read s2)
        else Inr (LITE_ESP8266_TIMEOUT, buffer, s1))"
  by pat_completeness auto
termination
  by (relation "measure (\<lambda>(b, r, m, d, n, s). unat d - unat (clock s))")
    (auto simp: millis_def available_def read_def clock_tick split: list.splits option.splits)

declare copy_serial_to_buffer_loop.simps [simp del]

definition copy_serial_to_buffer ::
  "byte list \<Rightarrow> byte \<Rightarrow> 16 word \<Rightarrow> 16 word \<Rightarrow> arduino \<Rightarrow>
     fault + result_code \<times> byte list \<times> arduino" where
  "copy_serial_to_buffer buffer read_until max_bytes timeout_ms s =
     (case millis s of (start_time, s1) \<Rightarrow>
        (let bytes_read = 0 in
         copy_serial_to_buffer_loop buffer read_until max_bytes (start_time + ucast timeout_ms)
           bytes_read s1))"

section \<open>The C library's atoi\<close>

text \<open>
  \<open>atoi\<close> belongs to the C library, not to the driver. It reads the bytes of the array it
  is given from the front: it skips white space, takes one optional sign and then the
  decimal digits up to the first byte that is not a digit; with no digit there the value
  is 0. It does not look for a terminator: any byte that is not a digit ends the number,
  the zero byte like any other. Only when every byte up to the end of the array is white
  space, sign or digit does it read behind the array, and that is the fault. The value
  is computed in the integers; its assignment to an \<open>unsigned int\<close> reduces it modulo
  \<open>2 ^ 16\<close>, which is also what the AVR library's 16-bit accumulator gives for a digit
  string too long for an \<open>int\<close>.
\<close>

definition isspace :: "byte \<Rightarrow> bool" where
  "isspace c = (c = 32 \<or> (9 \<le> c \<and> c \<le> 13))"

definition isdigit :: "byte \<Rightarrow> bool" where
  "isdigit c = (48 \<le> c \<and> c \<le> 57)"

fun digits_value :: "int \<Rightarrow> byte list \<Rightarrow> fault + int" where
  "digits_value acc [] = Inl StringOverread"
| "digits_value acc (c # cs) =
     (if isdigit c then digits_value (acc * 10 + (uint c - 48)) cs else Inr acc)"

definition atoi :: "byte list \<Rightarrow> fault + int" where
  "atoi buffer =
     (case dropWhile isspace buffer of
        [] \<Rightarrow> Inl StringOverread
      | c # cs \<Rightarrow>
          if c = 45 then (case digits_value 0 cs of Inl e \<Rightarrow> Inl e | Inr v \<Rightarrow> Inr (- v))
          else if c = 43 then digits_value 0 cs
          else digits_value 0 (c # cs))"

text \<open>The statement \<open>data_length = atoi(data_length_buffer);\<close> with its conversion.\<close>

definition parse_length :: "byte list \<Rightarrow> fault + 16 word" where
  "parse_length buffer =
     (case atoi buffer of
        Inl e \<Rightarrow> Inl e
      | Inr v \<Rightarrow> Inr (word_of_int v))"

section \<open>get_response_packet and get_http_response\<close>

definition ascii :: "string \<Rightarrow> byte list" where
  "ascii str = map of_char str"

definition ESP8266_DATA_PACKET :: "byte list" where
  "ESP8266_DATA_PACKET = ascii ''+IPD,''"

definition ESP8266_CONTENT_LENGTH_HEADER :: "byte list" where
  "ESP8266_CONTENT_LENGTH_HEADER = ascii ''Content-Length: ''"

definition ESP8266_CRLFCRLF :: "byte list" where
  "ESP8266_CRLFCRLF = [13, 10, 13, 10]"

definition COMMAND_RESPONSE_TIMEOUT :: "16 word" where
  "COMMAND_RESPONSE_TIMEOUT = 1000"

definition CLIENT_CONNECT_TIMEOUT :: "16 word" where
  "CLIENT_CONNECT_TIMEOUT = 5000"

text \<open>
  The \<open>while\<close> with the empty body that waits for a byte:
  \<open>while (!radio_serial_->available() && (millis() < (start_time + timeout_ms)));\<close>
  The clock is read only when no byte waits.
\<close>

function wait_for_data :: "32 word \<Rightarrow> arduino \<Rightarrow> arduino" where
  "wait_for_data deadline s =
     (case available s of (av, s1) \<Rightarrow>
        if \<not> av then
          (case millis s1 of (t, s2) \<Rightarrow>
             if t < deadline then wait_for_data deadline s2 else s2)
        else s1)"
  by pat_completeness auto
termination
  by (relation "measure (\<lambda>(d, s). unat d - unat (clock s))")
    (auto simp: millis_def available_def clock_tick split: list.splits option.splits)

declare wait_for_data.simps [simp del]

lemma index_succ:
  assumes "(i :: 16 word) < n"
  shows "unat (i + 1) = Suc (unat i)"
proof -
  have a: "unat i < unat n" using assms by (simp add: word_less_nat_alt)
  have b: "unat n < 2 ^ 16" using unsigned_less [of n] by simp
  have "unat (i + 1) = (unat i + 1) mod 2 ^ 16" by (simp add: unat_word_ariths)
  with a b show ?thesis by simp
qed

lemma index_tick: "(i :: 16 word) < n \<Longrightarrow> unat n - unat (i + 1) < unat n - unat i"
  using index_succ [of i n] by (simp add: word_less_nat_alt)

text \<open>
  The \<open>for\<close> loop that copies the payload, the same text in both functions. \<open>data\<close> is
  the region \<open>malloc\<close> returned, as long as the number of bytes asked for.
\<close>

function packet_data_loop ::
  "16 word \<Rightarrow> 16 word \<Rightarrow> 32 word \<Rightarrow> 16 word \<Rightarrow> byte list \<Rightarrow> arduino \<Rightarrow>
     fault + byte list \<times> arduino" where
  "packet_data_loop data_length bytes_allocated deadline i data s =
     (if i < data_length then
        (case millis (wait_for_data deadline s) of (t, s2) \<Rightarrow>
           if t > deadline then Inr (data, s2)
           else
             (case read s2 of (c, s3) \<Rightarrow>
                if i < bytes_allocated - 1 then
                  (case poke data (unat i) (word_of_int c) of
                     Inl e \<Rightarrow> Inl e
                   | Inr data' \<Rightarrow>
                       packet_data_loop data_length bytes_allocated deadline (i + 1) data' s3)
                else packet_data_loop data_length bytes_allocated deadline (i + 1) data s3))
      else Inr (data, s))"
  by pat_completeness auto
termination
  by (relation "measure (\<lambda>(n, a, d, i, data, s). unat n - unat i)")
    (auto simp: index_tick)

declare packet_data_loop.simps [simp del]

text \<open>
  From the allocation to \<open>return data\<close>. \<open>malloc\<close> is taken to succeed; \<open>memset\<close> zeroes
  the whole region.
\<close>

definition bytes_allocated :: "16 word \<Rightarrow> 16 word \<Rightarrow> 16 word" where
  "bytes_allocated max_allocate_bytes data_length =
     (if max_allocate_bytes > data_length then data_length + 1 else max_allocate_bytes)"

definition read_packet_data ::
  "16 word \<Rightarrow> 16 word \<Rightarrow> 32 word \<Rightarrow> arduino \<Rightarrow> fault + byte list \<times> arduino" where
  "read_packet_data max_allocate_bytes data_length deadline s =
     (let data = replicate (unat (bytes_allocated max_allocate_bytes data_length)) 0
      in packet_data_loop data_length (bytes_allocated max_allocate_bytes data_length)
           deadline 0 data s)"

text \<open>
  \<open>data_length_buffer\<close> is a local array that the function does not initialise: the
  bytes it holds on entry are an argument of the model (five of them, whatever the stack
  held). The result is the region, or \<open>None\<close> for the null pointer.
\<close>

definition get_response_packet ::
  "16 word \<Rightarrow> 16 word \<Rightarrow> byte list \<Rightarrow> arduino \<Rightarrow> fault + byte list option \<times> arduino" where
  "get_response_packet max_allocate_bytes timeout_ms data_length_buffer s =
     (case millis s of (start_time, s1) \<Rightarrow>
        (case read_for_response ESP8266_DATA_PACKET CLIENT_CONNECT_TIMEOUT s1 of
           Inl e \<Rightarrow> Inl e
         | Inr (r, s2) \<Rightarrow>
             if r = LITE_ESP8266_SUCCESS then
               (case copy_serial_to_buffer data_length_buffer (of_char CHR '':'') 5
                       COMMAND_RESPONSE_TIMEOUT s2 of
                  Inl e \<Rightarrow> Inl e
                | Inr (r', buffer, s3) \<Rightarrow>
                    (case parse_length buffer of
                       Inl e \<Rightarrow> Inl e
                     | Inr data_length \<Rightarrow>
                         (case read_packet_data max_allocate_bytes data_length
                                 (start_time + ucast timeout_ms) s3 of
                            Inl e \<Rightarrow> Inl e
                          | Inr (data, s4) \<Rightarrow> Inr (Some data, s4))))
             else Inr (None, s2)))"

definition get_http_response ::
  "16 word \<Rightarrow> 16 word \<Rightarrow> byte list \<Rightarrow> arduino \<Rightarrow> fault + byte list option \<times> arduino" where
  "get_http_response max_allocate_bytes timeout_ms content_length_buffer s =
     (case millis s of (start_time, s1) \<Rightarrow>
        (case read_for_response ESP8266_CONTENT_LENGTH_HEADER CLIENT_CONNECT_TIMEOUT s1 of
           Inl e \<Rightarrow> Inl e
         | Inr (r, s2) \<Rightarrow>
             if r = LITE_ESP8266_SUCCESS then
               (case copy_serial_to_buffer content_length_buffer 13 16
                       COMMAND_RESPONSE_TIMEOUT s2 of
                  Inl e \<Rightarrow> Inl e
                | Inr (r', buffer, s3) \<Rightarrow>
                    (case parse_length buffer of
                       Inl e \<Rightarrow> Inl e
                     | Inr content_length \<Rightarrow>
                         (case read_for_response ESP8266_CRLFCRLF CLIENT_CONNECT_TIMEOUT s3 of
                            Inl e \<Rightarrow> Inl e
                          | Inr (r'', s4) \<Rightarrow>
                              if r'' = LITE_ESP8266_SUCCESS then
                                (case read_packet_data max_allocate_bytes content_length
                                       (start_time + ucast timeout_ms) s4 of
                                   Inl e \<Rightarrow> Inl e
                                 | Inr (data, s5) \<Rightarrow> Inr (Some data, s5))
                              else Inr (None, s4))))
             else Inr (None, s2)))"

section \<open>Notions used in the statements\<close>

text \<open>
  The stretch of the line between \<open>line\<close> and what is left of it, \<open>line'\<close>, ends with a
  byte, and the bytes read, put behind the \<open>c\<close> bytes of \<open>p\<close> already matched, end with
  the whole string \<open>p\<close>.
\<close>

definition consumed_token :: "byte list \<Rightarrow> nat \<Rightarrow> byte option list \<Rightarrow> byte option list \<Rightarrow> bool" where
  "consumed_token p c line line' =
     (\<exists>ev pre. line = ev @ line' \<and> ev \<noteq> [] \<and> last ev \<noteq> None \<and>
        take c p @ bytes_of ev = pre @ take (strlen_P p) p)"

text \<open>What holds of the loop after any number of passes, started with \<open>c\<close> bytes matched.\<close>

definition trace_ok ::
  "byte list \<Rightarrow> nat \<Rightarrow> byte option list \<Rightarrow> (8 word \<times> arduino) step \<Rightarrow> bool" where
  "trace_ok p c line st =
     (case st of
        Next st' \<Rightarrow> unat (fst st') < strlen_P p
      | Done r st' \<Rightarrow>
          (r = LITE_ESP8266_SUCCESS \<and> unat (fst st') = strlen_P p \<and>
             consumed_token p c line (radio_serial (snd st'))) \<or>
          (r = LITE_ESP8266_TIMEOUT \<and> unat (fst st') < strlen_P p)
      | Crash e \<Rightarrow> False)"

text \<open>
  The match cursor as a function of the bytes read: \<open>cursor_after p c bs\<close> is the value of
  \<open>matched_chars\<close> after the bytes \<open>bs\<close>, started at \<open>c\<close>, or \<open>None\<close> when one of the
  bytes completes the string. This is the loop body of \<open>read_for_response\<close> with the
  clock and the line taken away: a matching byte advances the cursor, any other byte
  sets it to zero and is dropped.
\<close>

fun cursor_after :: "byte list \<Rightarrow> nat \<Rightarrow> byte list \<Rightarrow> nat option" where
  "cursor_after p c [] = Some c"
| "cursor_after p c (b # bs) =
     (if c < length p \<and> b = p ! c
      then (if Suc c = strlen_P p then None else cursor_after p (Suc c) bs)
      else cursor_after p 0 bs)"

text \<open>
  What the \<open>for\<close> loop leaves in the region: the payload byte number \<open>i\<close> is stored at
  index \<open>i\<close> while \<open>i\<close> is below \<open>cap = bytes_allocated - 1\<close>, the others are dropped.
\<close>

fun store :: "nat \<Rightarrow> nat \<Rightarrow> byte list \<Rightarrow> byte list \<Rightarrow> byte list" where
  "store i cap [] data = data"
| "store i cap (b # bs) data = store (Suc i) cap bs (if i < cap then data[i := b] else data)"

text \<open>The value of a run of decimal digits, as \<open>atoi\<close> accumulates it.\<close>

definition decimal :: "byte list \<Rightarrow> int" where
  "decimal ds = foldl (\<lambda>acc c. acc * 10 + (uint c - 48)) 0 ds"

section \<open>Facts about the matcher's result\<close>

lemma read_for_response_iter_code:
  "read_for_response_iter p rl d (mc, s) = Done r st' \<Longrightarrow>
     r = LITE_ESP8266_SUCCESS \<or> r = LITE_ESP8266_TIMEOUT"
  by (auto simp: read_for_response_iter_def millis_def available_def read_def Let_def
      split: if_splits list.splits option.splits)

lemma read_for_response_loop_code:
  "read_for_response_loop p rl d st = Inr (r, s') \<Longrightarrow>
     r = LITE_ESP8266_SUCCESS \<or> r = LITE_ESP8266_TIMEOUT"
proof (induction p rl d st rule: read_for_response_loop.induct)
  case (1 p rl d st)
  note unfold = read_for_response_loop.simps [of p rl d st]
  show ?case
  proof (cases "read_for_response_iter p rl d st")
    case (Next st')
    with 1 show ?thesis by (simp add: unfold)
  next
    case (Done r' st')
    with 1(2) have "r' = r" by (simp add: unfold)
    with Done read_for_response_iter_code [of p rl d "fst st" "snd st"] show ?thesis by simp
  next
    case (Crash e)
    with 1(2) show ?thesis by (simp add: unfold)
  qed
qed

lemma read_for_response_code:
  "read_for_response p t s = Inr (r, s') \<Longrightarrow>
     r = LITE_ESP8266_SUCCESS \<or> r = LITE_ESP8266_TIMEOUT"
  by (auto simp: read_for_response_def Let_def split: prod.splits
      dest: read_for_response_loop_code)

text \<open>On a line that stays silent the matcher runs into its deadline.\<close>

lemma read_for_response_loop_silent:
  "radio_serial (snd st) = [] \<Longrightarrow>
     \<exists>s'. read_for_response_loop p rl d st = Inr (LITE_ESP8266_TIMEOUT, s')"
proof (induction p rl d st rule: read_for_response_loop.induct)
  case (1 p rl d st)
  obtain mc s where st: "st = (mc, s)" by (cases st)
  note unfold = read_for_response_loop.simps [of p rl d "(mc, s)"]
  from 1(2) st have silent: "radio_serial s = []" by simp
  show ?case
  proof (cases "clock s < d")
    case True
    with silent have it:
      "read_for_response_iter p rl d (mc, s) = Next (mc, s\<lparr>clock := clock s + 1\<rparr>)"
      by (simp add: read_for_response_iter_def millis_def available_def)
    from 1(1) [OF it [folded st]] silent
    have "\<exists>s'. read_for_response_loop p rl d (mc, s\<lparr>clock := clock s + 1\<rparr>) =
        Inr (LITE_ESP8266_TIMEOUT, s')" by simp
    then show ?thesis unfolding st by (simp add: unfold it)
  next
    case False
    then have "read_for_response_iter p rl d (mc, s) =
        Done LITE_ESP8266_TIMEOUT (mc, s\<lparr>clock := clock s + 1\<rparr>)"
      by (simp add: read_for_response_iter_def millis_def)
    then show ?thesis unfolding st by (simp add: unfold)
  qed
qed

lemma read_for_response_silent:
  "radio_serial s = [] \<Longrightarrow> \<exists>s'. read_for_response p t s = Inr (LITE_ESP8266_TIMEOUT, s')"
  using read_for_response_loop_silent [of "(0, s\<lparr>clock := clock s + 1\<rparr>)"]
  by (simp add: read_for_response_def millis_def)

section \<open>copy_serial_to_buffer and small capacities\<close>

text \<open>
  C3 asks that no byte, data or terminator, is written at an index \<open>\<ge> max_bytes\<close>, for
  every capacity including 0 and 1. The code stores the byte read at \<open>buffer[bytes_read]\<close>
  before any comparison with \<open>max_bytes\<close>, and terminates at \<open>buffer[bytes_read]\<close> after
  the increment. With \<open>max_bytes = 1\<close> and one byte \<open>a\<close> on the line, the byte goes to
  index 0 and the terminator to index 1: a one-byte buffer is overrun, and in a larger
  array the byte at index 1 is overwritten. With \<open>max_bytes = 0\<close> the first byte is
  already written at index 0 of a buffer that has no bytes.
\<close>

theorem copy_serial_to_buffer_overruns_small_buffer:
  "copy_serial_to_buffer [7] (of_char CHR '':'') 1 100 \<lparr>clock = 0, radio_serial = [Some 97]\<rparr> =
     Inl BufferOverrun \<and>
   copy_serial_to_buffer [7, 7] (of_char CHR '':'') 1 100 \<lparr>clock = 0, radio_serial = [Some 97]\<rparr> =
     Inr (LITE_ESP8266_LENGTH_EXCEEDED, [97, 0], \<lparr>clock = 2, radio_serial = []\<rparr>) \<and>
   copy_serial_to_buffer [] (of_char CHR '':'') 0 100 \<lparr>clock = 0, radio_serial = [Some 97]\<rparr> =
     Inl BufferOverrun"
  by code_simp

section \<open>The size of the packet region\<close>

text \<open>
  C4 asks that the region allocated for the packet has at least one byte for every
  \<open>max_allocate_bytes\<close>, 0 included. With \<open>max_allocate_bytes = 0\<close> the test
  \<open>max_allocate_bytes > data_length\<close> fails for every length, so \<open>malloc(0)\<close> is called
  and \<open>bytes_allocated\<close> is 0. Then \<open>bytes_allocated - 1\<close> wraps to 65535 and the copy
  loop stores payload bytes into the empty region: on \<open>+IPD,5:hello\<close> the first store is
  out of bounds. On \<open>+IPD,0:\<close> the region returned has no byte at all.
\<close>

theorem bytes_allocated_zero_ceiling:
  "bytes_allocated 0 data_length = 0 \<and>
   get_response_packet 0 20 [7, 7, 7, 7, 7]
     \<lparr>clock = 0, radio_serial = map Some (ascii ''+IPD,5:hello'')\<rparr> = Inl BufferOverrun \<and>
   get_response_packet 0 20 [7, 7, 7, 7, 7]
     \<lparr>clock = 0, radio_serial = map Some (ascii ''+IPD,0:'')\<rparr> =
     Inr (Some [], \<lparr>clock = 10, radio_serial = []\<rparr>)"
proof (intro conjI)
  show "bytes_allocated 0 data_length = 0"
    by (simp add: bytes_allocated_def)
  show "get_response_packet 0 20 [7, 7, 7, 7, 7]
     \<lparr>clock = 0, radio_serial = map Some (ascii ''+IPD,5:hello'')\<rparr> = Inl BufferOverrun"
    by code_simp
  show "get_response_packet 0 20 [7, 7, 7, 7, 7]
     \<lparr>clock = 0, radio_serial = map Some (ascii ''+IPD,0:'')\<rparr> =
     Inr (Some [], \<lparr>clock = 10, radio_serial = []\<rparr>)"
    by code_simp
qed

section \<open>Parsing the length field\<close>

lemma digits_value_run:
  "\<forall>c\<in>set ds. isdigit c \<Longrightarrow> rest \<noteq> [] \<Longrightarrow> \<not> isdigit (hd rest) \<Longrightarrow>
     digits_value acc (ds @ rest) = Inr (foldl (\<lambda>acc c. acc * 10 + (uint c - 48)) acc ds)"
proof (induction ds arbitrary: acc)
  case Nil
  then show ?case by (cases rest) simp_all
next
  case (Cons d ds)
  then show ?case by simp
qed

lemma isdigit_not_isspace: "isdigit c \<Longrightarrow> \<not> isspace c \<and> c \<noteq> 43 \<and> c \<noteq> 45"
  by (auto simp: isdigit_def isspace_def word_le_nat_alt)

lemma parse_length_run:
  assumes ws: "\<forall>c\<in>set ws. isspace c"
    and sg: "sg = [] \<or> sg = [43] \<or> sg = [45]"
    and ds: "\<forall>c\<in>set ds. isdigit c"
    and ne: "rest \<noteq> []" and st: "\<not> isdigit (hd rest)"
    and bare: "sg = [] \<and> ds = [] \<longrightarrow> \<not> isspace (hd rest) \<and> hd rest \<noteq> 43 \<and> hd rest \<noteq> 45"
  shows "parse_length (ws @ sg @ ds @ rest) =
     Inr (word_of_int (if sg = [45] then - decimal ds else decimal ds))"
proof -
  have skip: "dropWhile isspace (ws @ xs) = dropWhile isspace xs" for xs
    using ws by (simp add: dropWhile_append2)
  note run = digits_value_run [OF ds ne st, of 0, folded decimal_def]
  from sg consider (none) "sg = []" | (plus) "sg = [43]" | (minus) "sg = [45]" by blast
  then show ?thesis
  proof cases
    case plus
    then show ?thesis
      by (simp add: parse_length_def atoi_def skip isspace_def run)
  next
    case minus
    then show ?thesis
      by (simp add: parse_length_def atoi_def skip isspace_def run)
  next
    case none
    show ?thesis
    proof (cases ds)
      case Nil
      from ne obtain r rs where r: "rest = r # rs" by (cases rest) auto
      with bare none Nil st show ?thesis
        by (simp add: parse_length_def atoi_def skip decimal_def)
    next
      case (Cons d ds')
      with ds have d: "isdigit d" by simp
      note nd = isdigit_not_isspace [OF d]
      from run Cons have "digits_value 0 (d # ds' @ rest) = Inr (decimal ds)" by simp
      with none Cons nd show ?thesis
        by (simp add: parse_length_def atoi_def skip del: digits_value.simps)
    qed
  qed
qed

text \<open>
  A buffer that holds a zero byte, as every buffer does that \<open>copy_serial_to_buffer\<close>
  has terminated, always gives a length: \<open>atoi\<close> stops at the zero byte at the latest.
\<close>

lemma digits_value_stops:
  "\<exists>c\<in>set cs. \<not> isdigit c \<Longrightarrow> \<exists>v. digits_value acc cs = Inr v"
  by (induction cs arbitrary: acc) auto

lemma dropWhile_keeps: "x \<in> set xs \<Longrightarrow> \<not> P x \<Longrightarrow> x \<in> set (dropWhile P xs)"
  by (induction xs) auto

lemma parse_length_terminated:
  assumes "0 \<in> set buffer"
  shows "\<exists>L. parse_length buffer = Inr L"
proof -
  have z: "\<not> isspace 0" "\<not> isdigit 0" by (simp_all add: isspace_def isdigit_def)
  from dropWhile_keeps [of 0 buffer isspace, OF assms z(1)] obtain c cs
    where d: "dropWhile isspace buffer = c # cs" and m: "0 \<in> set (c # cs)"
    by (cases "dropWhile isspace buffer") auto
  from m z(2) have all: "\<exists>v. digits_value 0 (c # cs) = Inr v"
    by (intro digits_value_stops) blast
  show ?thesis
  proof (cases "c = 45 \<or> c = 43")
    case True
    with m have "0 \<in> set cs" by auto
    with z(2) have "\<exists>v. digits_value 0 cs = Inr v" by (intro digits_value_stops) blast
    with True d show ?thesis by (auto simp: parse_length_def atoi_def)
  next
    case False
    with all d show ?thesis by (auto simp: parse_length_def atoi_def simp del: digits_value.simps)
  qed
qed

text \<open>
  C9, as the specification states it: every malformed or empty digit string parses to 0,
  so that \<open>-3\<close> gives 0. \<open>atoi\<close> accepts a sign and stops at the first byte that is not
  a digit: the buffer holding \<open>-3\<close> gives \<open>-3\<close>, which is 65533 as an \<open>unsigned int\<close>,
  and \<open>12ab\<close> gives 12.
\<close>

theorem parse_length_malformed_counterexample:
  "parse_length [45, 51, 0, 7, 7] = Inr 65533 \<and> parse_length (ascii ''12ab'' @ [0]) = Inr 12"
  by (simp add: parse_length_def atoi_def isspace_def isdigit_def ascii_def)

text \<open>
  C9, amended. The buffer is read as white space \<open>ws\<close>, at most one sign \<open>sg\<close>, the
  decimal digits \<open>ds\<close> that follow, and \<open>rest\<close>, which starts with the first byte that
  is not a digit (the terminator, or any other byte). The parsed length is an unsigned
  16-bit number: the value of the digits \<open>ds\<close>, negated after a minus sign, modulo
  \<open>2 ^ 16\<close>. Whenever there is no digit at that place the length is 0: for the empty
  string, for a sign alone, and for a string that goes on with any byte that is not a
  digit, with or without white space in front. So the strings that parse to a nonzero
  length are those with digits in front: \<open>12ab\<close> gives 12 and \<open>-3\<close> gives 65533. The
  last hypothesis only says that \<open>ws\<close> and \<open>sg\<close> are the whole white space and the sign
  when no digit follows.
\<close>

theorem parse_length_value:
  assumes "\<forall>c\<in>set ws. isspace c"
    and "sg = [] \<or> sg = [43] \<or> sg = [45]"
    and "\<forall>c\<in>set ds. isdigit c"
    and "rest \<noteq> []" and "\<not> isdigit (hd rest)"
    and "sg = [] \<and> ds = [] \<longrightarrow> \<not> isspace (hd rest) \<and> hd rest \<noteq> 43 \<and> hd rest \<noteq> 45"
  shows "parse_length (ws @ sg @ ds @ rest) =
       Inr (word_of_int (if sg = [45] then - decimal ds else decimal ds)) \<and>
     (ds = [] \<longrightarrow> parse_length (ws @ sg @ ds @ rest) = Inr 0)"
  using parse_length_run [OF assms] by (auto simp: decimal_def)

text \<open>
  The buffers holding \<open> -x\<close>, \<open>-3\<close>, \<open>+\<close> and, with no terminator, \<open>12\<close> before what the
  stack held.
\<close>

theorem parse_length_value_witness:
  "parse_length [32, 45, 120, 0, 7] = Inr 0 \<and> parse_length [45, 51, 0, 7, 7] = Inr 65533 \<and>
   parse_length [43, 0, 7, 7, 7] = Inr 0 \<and> parse_length [49, 50, 7, 7, 7] = Inr 12"
  using parse_length_value [of "[32]" "[45]" "[]" "[120, 0, 7]"]
    parse_length_value [of "[]" "[45]" "[51]" "[0, 7, 7]"]
    parse_length_value [of "[]" "[43]" "[]" "[0, 7, 7, 7]"]
    parse_length_value [of "[]" "[]" "[49, 50]" "[7, 7, 7]"]
  by (simp add: isspace_def isdigit_def decimal_def)

section \<open>The match cursor of read_for_response\<close>

lemma strlen_P_le: "strlen_P p \<le> length p"
  by (simp add: strlen_P_def length_takeWhile_le)

lemma cursor_succ:
  assumes "unat (mc :: 8 word) < n" "n < 256"
  shows "unat (mc + 1) = Suc (unat mc)"
proof -
  have "unat (mc + 1) = (unat mc + 1) mod 2 ^ 8" by (simp add: unat_word_ariths)
  with assms show ?thesis by simp
qed

lemma cursor_complete:
  assumes "unat (mc :: 8 word) < n" "n < 256"
  shows "(mc + 1 = of_nat n) = (Suc (unat mc) = n)"
proof -
  have a: "unat (of_nat n :: 8 word) = n" using assms(2) by (simp add: unat_of_nat)
  have "(mc + 1 = of_nat n) = (unat (mc + 1) = unat (of_nat n :: 8 word))"
    by (simp add: word_unat_eq_iff)
  with a cursor_succ [OF assms] show ?thesis by simp
qed

lemma read_for_response_iter_cases:
  assumes "unat mc < strlen_P p" "strlen_P p < 256"
  shows "read_for_response_iter p (of_nat (strlen_P p)) d (mc, s) =
    (if clock s < d then
       (case radio_serial s of
          [] \<Rightarrow> Next (mc, s\<lparr>clock := clock s + 1\<rparr>)
        | None # r \<Rightarrow> Next (mc, s\<lparr>clock := clock s + 1, radio_serial := r\<rparr>)
        | Some b # r \<Rightarrow>
            if b = p ! unat mc then
              (if Suc (unat mc) = strlen_P p
               then Done LITE_ESP8266_SUCCESS (mc + 1, s\<lparr>clock := clock s + 1, radio_serial := r\<rparr>)
               else Next (mc + 1, s\<lparr>clock := clock s + 1, radio_serial := r\<rparr>))
            else Next (0, s\<lparr>clock := clock s + 1, radio_serial := r\<rparr>))
     else Done LITE_ESP8266_TIMEOUT (mc, s\<lparr>clock := clock s + 1\<rparr>))"
proof -
  have "unat mc < length p" using assms(1) strlen_P_le [of p] by simp
  then have rd: "pgm_read_byte_near p (unat mc) = Some (p ! unat mc)"
    by (simp add: pgm_read_byte_near_def)
  show ?thesis
    by (simp add: read_for_response_iter_def millis_def available_def read_def rd
        cursor_complete [OF assms] Let_def word_uint_eq_iff [symmetric]
        split: list.splits option.splits)
qed



lemma consumed_token_idle:
  "consumed_token p c r l' \<Longrightarrow> consumed_token p c (None # r) l'"
proof -
  assume "consumed_token p c r l'"
  then obtain ev pre where *: "r = ev @ l'" "ev \<noteq> []" "last ev \<noteq> None"
      "take c p @ bytes_of ev = pre @ take (strlen_P p) p"
    unfolding consumed_token_def by blast
  then have "None # r = (None # ev) @ l' \<and> None # ev \<noteq> [] \<and> last (None # ev) \<noteq> None \<and>
      take c p @ bytes_of (None # ev) = pre @ take (strlen_P p) p" by simp
  then show ?thesis unfolding consumed_token_def by blast
qed

lemma consumed_token_match:
  assumes "c < length p" "consumed_token p (Suc c) r l'"
  shows "consumed_token p c (Some (p ! c) # r) l'"
proof -
  from assms(2) obtain ev pre where *: "r = ev @ l'" "ev \<noteq> []" "last ev \<noteq> None"
      "take (Suc c) p @ bytes_of ev = pre @ take (strlen_P p) p"
    unfolding consumed_token_def by blast
  let ?ev = "Some (p ! c) # ev"
  have "take c p @ bytes_of ?ev = take (Suc c) p @ bytes_of ev"
    using assms(1) by (simp add: take_Suc_conv_app_nth)
  with * have "Some (p ! c) # r = ?ev @ l' \<and> ?ev \<noteq> [] \<and> last ?ev \<noteq> None \<and>
      take c p @ bytes_of ?ev = pre @ take (strlen_P p) p" by simp
  then show ?thesis unfolding consumed_token_def by blast
qed

lemma consumed_token_reset:
  assumes "consumed_token p 0 r l'"
  shows "consumed_token p c (Some b # r) l'"
proof -
  from assms obtain ev pre where *: "r = ev @ l'" "ev \<noteq> []" "last ev \<noteq> None"
      "bytes_of ev = pre @ take (strlen_P p) p"
    unfolding consumed_token_def by auto
  let ?ev = "Some b # ev"
  from * have "Some b # r = ?ev @ l' \<and> ?ev \<noteq> [] \<and> last ?ev \<noteq> None \<and>
      take c p @ bytes_of ?ev = (take c p @ b # pre) @ take (strlen_P p) p" by simp
  then show ?thesis unfolding consumed_token_def by blast
qed

lemma consumed_token_last:
  assumes "Suc c = strlen_P p"
  shows "consumed_token p c (Some (p ! c) # r) r"
proof -
  have "c < length p" using assms strlen_P_le [of p] by simp
  then have "take c p @ bytes_of [Some (p ! c)] = [] @ take (strlen_P p) p"
    using assms by (simp add: take_Suc_conv_app_nth [symmetric])
  then have "Some (p ! c) # r = [Some (p ! c)] @ r \<and> [Some (p ! c)] \<noteq> [] \<and>
      last [Some (p ! c)] \<noteq> None \<and>
      take c p @ bytes_of [Some (p ! c)] = [] @ take (strlen_P p) p" by simp
  then show ?thesis unfolding consumed_token_def by blast
qed

lemma trace_ok_idle: "trace_ok p c r st \<Longrightarrow> trace_ok p c (None # r) st"
  by (auto simp: trace_ok_def consumed_token_idle split: step.splits)

lemma trace_ok_match:
  "c < length p \<Longrightarrow> trace_ok p (Suc c) r st \<Longrightarrow> trace_ok p c (Some (p ! c) # r) st"
  by (auto simp: trace_ok_def consumed_token_match split: step.splits)

lemma trace_ok_reset: "trace_ok p 0 r st \<Longrightarrow> trace_ok p c (Some b # r) st"
  by (auto simp: trace_ok_def consumed_token_reset split: step.splits)

lemma after_invariant:
  assumes n: "strlen_P p < 256"
    and mc: "unat mc0 < strlen_P p"
  shows "trace_ok p (unat mc0) (radio_serial s0)
           (read_for_response_after k p (of_nat (strlen_P p)) d (mc0, s0))"
  using mc
proof (induction k arbitrary: mc0 s0)
  case 0
  then show ?case by (simp add: trace_ok_def)
next
  case (Suc k)
  note it = read_for_response_iter_cases [OF Suc.prems n, of d s0]
  have len: "unat mc0 < length p" using Suc.prems strlen_P_le [of p] by simp
  have zero: "unat (0 :: 8 word) < strlen_P p" using Suc.prems by simp
  let ?s1 = "s0\<lparr>clock := clock s0 + 1\<rparr>"
  show ?case
  proof (cases "clock s0 < d")
    case False
    then show ?thesis using Suc.prems by (simp add: it trace_ok_def)
  next
    case True
    show ?thesis
    proof (cases "radio_serial s0")
      case Nil
      with True Suc.IH [OF Suc.prems, of ?s1] show ?thesis
        by (simp add: it)
    next
      case (Cons x r)
      let ?s2 = "s0\<lparr>clock := clock s0 + 1, radio_serial := r\<rparr>"
      show ?thesis
      proof (cases x)
        case None
        have "trace_ok p (unat mc0) r
            (read_for_response_after k p (of_nat (strlen_P p)) d (mc0, ?s2))"
          using Suc.IH [OF Suc.prems, of ?s2] by simp
        from trace_ok_idle [OF this] True Cons None show ?thesis by (simp add: it)
      next
        case (Some b)
        show ?thesis
        proof (cases "b = p ! unat mc0")
          case False
          have "trace_ok p 0 r (read_for_response_after k p (of_nat (strlen_P p)) d (0, ?s2))"
            using Suc.IH [OF zero, of ?s2] by simp
          from trace_ok_reset [OF this, of "unat mc0" b] True Cons Some False
          show ?thesis by (simp add: it)
        next
          case b: True
          show ?thesis
          proof (cases "Suc (unat mc0) = strlen_P p")
            case True
            with \<open>clock s0 < d\<close> Cons Some b consumed_token_last [OF True, of r]
              cursor_succ [OF Suc.prems n]
            show ?thesis by (simp add: it trace_ok_def)
          next
            case False
            then have nx: "unat (mc0 + 1) < strlen_P p"
              using Suc.prems cursor_succ [OF Suc.prems n] by simp
            have "trace_ok p (Suc (unat mc0)) r
                (read_for_response_after k p (of_nat (strlen_P p)) d (mc0 + 1, ?s2))"
              using Suc.IH [OF nx, of ?s2] cursor_succ [OF Suc.prems n] by simp
            from trace_ok_match [OF len this] \<open>clock s0 < d\<close> Cons Some b False
            show ?thesis by (simp add: it)
          qed
        qed
      qed
    qed
  qed
qed

lemma read_for_response_loop_after:
  "read_for_response_loop p rl d st =
     (case read_for_response_after k p rl d st of
        Next st' \<Rightarrow> read_for_response_loop p rl d st'
      | Done r st' \<Rightarrow> Inr (r, snd st')
      | Crash e \<Rightarrow> Inl e)"
proof (induction k arbitrary: st)
  case 0
  show ?case by simp
next
  case (Suc k)
  note unfold = read_for_response_loop.simps [of p rl d st]
  show ?case
  proof (cases "read_for_response_iter p rl d st")
    case (Next st')
    with Suc.IH [of st'] show ?thesis by (simp add: unfold)
  next
    case (Done r st')
    then show ?thesis by (simp add: unfold)
  next
    case (Crash e)
    then show ?thesis by (simp add: unfold)
  qed
qed

lemma read_for_response_loop_ends:
  "\<exists>k. case read_for_response_after k p rl d st of Next st' \<Rightarrow> False | _ \<Rightarrow> True"
proof (induction p rl d st rule: read_for_response_loop.induct)
  case (1 p rl d st)
  show ?case
  proof (cases "read_for_response_iter p rl d st")
    case (Next st')
    from 1 [OF Next] obtain k where
      "case read_for_response_after k p rl d st' of Next st' \<Rightarrow> False | _ \<Rightarrow> True" by blast
    with Next have
      "case read_for_response_after (Suc k) p rl d st of Next st' \<Rightarrow> False | _ \<Rightarrow> True"
      by simp
    then show ?thesis by blast
  next
    case (Done r st')
    then have
      "case read_for_response_after (Suc 0) p rl d st of Next st' \<Rightarrow> False | _ \<Rightarrow> True"
      by simp
    then show ?thesis by blast
  next
    case (Crash e)
    then have
      "case read_for_response_after (Suc 0) p rl d st of Next st' \<Rightarrow> False | _ \<Rightarrow> True"
      by simp
    then show ?thesis by blast
  qed
qed

text \<open>
  C7, amended: for a response string of 1 to 255 bytes, \<open>matched_chars\<close> stays below the
  string's length at every pass through the loop; the loop ends with Success exactly when
  \<open>matched_chars\<close> reaches the length, and with Timeout otherwise; it never reads outside
  the string; and when \<open>read_for_response\<close> returns Success, the part of the line it has
  consumed ends with the last byte of the response string, nothing behind it.
\<close>

theorem read_for_response_cursor_bounded:
  assumes "0 < strlen_P p" and "strlen_P p < 256"
  shows "(read_for_response_after k p (of_nat (strlen_P p)) d (0, s) = Next (mc, s') \<longrightarrow>
            unat mc < strlen_P p) \<and>
         (read_for_response_after k p (of_nat (strlen_P p)) d (0, s) = Done r (mc, s') \<longrightarrow>
            (r = LITE_ESP8266_SUCCESS \<and> unat mc = strlen_P p \<and>
               (\<exists>ev pre. radio_serial s = ev @ radio_serial s' \<and> ev \<noteq> [] \<and> last ev \<noteq> None \<and>
                  bytes_of ev = pre @ take (strlen_P p) p)) \<or>
            (r = LITE_ESP8266_TIMEOUT \<and> unat mc < strlen_P p)) \<and>
         read_for_response_after k p (of_nat (strlen_P p)) d (0, s) \<noteq> Crash e \<and>
         read_for_response p timeout_ms s \<noteq> Inl e \<and>
         (read_for_response p timeout_ms s = Inr (LITE_ESP8266_SUCCESS, s') \<longrightarrow>
            (\<exists>ev pre. radio_serial s = ev @ radio_serial s' \<and> ev \<noteq> [] \<and> last ev \<noteq> None \<and>
               bytes_of ev = pre @ take (strlen_P p) p))"
proof -
  have zero: "unat (0 :: 8 word) < strlen_P p" using assms(1) by simp
  have inv: "trace_ok p 0 (radio_serial s0)
      (read_for_response_after k p (of_nat (strlen_P p)) d (0, s0))" for k d s0
    using after_invariant [OF assms(2) zero, of s0 k d] by simp
  let ?s1 = "s\<lparr>clock := clock s + 1\<rparr>"
  let ?d = "clock s + ucast timeout_ms"
  have fn: "read_for_response p timeout_ms s =
      read_for_response_loop p (of_nat (strlen_P p)) ?d (0, ?s1)"
    by (simp add: read_for_response_def millis_def)
  obtain j where j: "case read_for_response_after j p (of_nat (strlen_P p)) ?d (0, ?s1) of
      Next st' \<Rightarrow> False | _ \<Rightarrow> True"
    using read_for_response_loop_ends by blast
  note lp = read_for_response_loop_after [of p "of_nat (strlen_P p)" ?d "(0, ?s1)" j]
  have a: "read_for_response p timeout_ms s \<noteq> Inl e"
    using j inv [of ?s1 j ?d] by (simp add: fn lp trace_ok_def split: step.splits)
  have b: "read_for_response p timeout_ms s = Inr (LITE_ESP8266_SUCCESS, s') \<longrightarrow>
      (\<exists>ev pre. radio_serial s = ev @ radio_serial s' \<and> ev \<noteq> [] \<and> last ev \<noteq> None \<and>
         bytes_of ev = pre @ take (strlen_P p) p)"
    using j inv [of ?s1 j ?d]
    by (auto simp: fn lp trace_ok_def consumed_token_def split: step.splits)
  from inv [of s k d] a b show ?thesis
    by (auto simp: trace_ok_def consumed_token_def split: step.splits)
qed

text \<open>
  C7, as the specification states it, includes the response string of length zero. For
  the empty string \<open>response_length\<close> is 0 and the first byte compared is the string's
  terminator: a zero byte on the line is counted as a match, \<open>matched_chars\<close> becomes 1,
  which exceeds the length 0, and the loop goes on instead of returning Success. One
  more byte and the comparison reads behind the terminator.
\<close>

theorem read_for_response_empty_token_counterexample:
  "strlen_P [] = 0 \<and>
   read_for_response_after 1 [] (of_nat (strlen_P [])) 100
     (0, \<lparr>clock = 1, radio_serial = [Some 0]\<rparr>) = Next (1, \<lparr>clock = 2, radio_serial = []\<rparr>) \<and>
   read_for_response [] 100 \<lparr>clock = 0, radio_serial = [Some 0]\<rparr> =
     Inr (LITE_ESP8266_TIMEOUT, \<lparr>clock = 101, radio_serial = []\<rparr>) \<and>
   read_for_response [] 100 \<lparr>clock = 0, radio_serial = [Some 0, Some 1]\<rparr> = Inl ProgmemOverread"
  by code_simp

theorem read_for_response_cursor_bounded_witness:
  "read_for_response_after 3 (ascii ''AB'') 2 100
     (0, \<lparr>clock = 1, radio_serial = map Some (ascii ''xAB'')\<rparr>) =
     Done LITE_ESP8266_SUCCESS (2, \<lparr>clock = 4, radio_serial = []\<rparr>) \<and>
   (\<exists>ev pre. map Some (ascii ''xAB'') = ev @ [] \<and> ev \<noteq> [] \<and> last ev \<noteq> None \<and>
      bytes_of ev = pre @ ascii ''AB'')"
proof -
  have run: "read_for_response_after 3 (ascii ''AB'') 2 100
     (0, \<lparr>clock = 1, radio_serial = map Some (ascii ''xAB'')\<rparr>) =
     Done LITE_ESP8266_SUCCESS (2, \<lparr>clock = 4, radio_serial = []\<rparr>)"
    by code_simp
  have len: "strlen_P (ascii ''AB'') = 2" by (simp add: strlen_P_def ascii_def)
  from run read_for_response_cursor_bounded
    [of "ascii ''AB''" 3 100 "\<lparr>clock = 1, radio_serial = map Some (ascii ''xAB'')\<rparr>" 2
      "\<lparr>clock = 4, radio_serial = []\<rparr>" LITE_ESP8266_SUCCESS]
  show ?thesis by (simp add: len ascii_def)
qed


section \<open>read_for_response finds its string\<close>

lemma clock_advance:
  assumes "unat (t :: 32 word) + k \<le> unat (d :: 32 word)"
  shows "unat (t + of_nat k) = unat t + k"
proof -
  have "unat d < 2 ^ 32" using unsigned_less [of d] by simp
  with assms have "unat t + k < 2 ^ 32" by simp
  then show ?thesis by (simp add: unat_word_ariths unat_of_nat)
qed

text \<open>Reading a stretch of the line that does not complete the string.\<close>

lemma read_for_response_loop_prefix:
  assumes n: "strlen_P p < 256"
  shows "unat mc < strlen_P p \<Longrightarrow> radio_serial s = ev @ rest \<Longrightarrow>
    unat (clock s) + length ev \<le> unat d \<Longrightarrow>
    cursor_after p (unat mc) (bytes_of ev) = Some c' \<Longrightarrow>
    read_for_response_loop p (of_nat (strlen_P p)) d (mc, s) =
      read_for_response_loop p (of_nat (strlen_P p)) d
        (of_nat c', s\<lparr>clock := clock s + of_nat (length ev), radio_serial := rest\<rparr>)"
proof (induction ev arbitrary: mc s)
  case Nil
  then have "(of_nat c' :: 8 word) = mc" and "s\<lparr>radio_serial := rest\<rparr> = s" by auto
  then show ?case by simp
next
  case (Cons x ev)
  note it = read_for_response_iter_cases [OF Cons.prems(1) n, of d s]
  note unfold = read_for_response_loop.simps [of p "of_nat (strlen_P p)" d "(mc, s)"]
  have lt: "clock s < d" using Cons.prems(3) by (simp add: word_less_nat_alt)
  let ?s' = "s\<lparr>clock := clock s + 1, radio_serial := ev @ rest\<rparr>"
  have tm: "unat (clock ?s') + length ev \<le> unat d"
    using Cons.prems(3) clock_succ [OF lt] by simp
  have fin: "?s'\<lparr>clock := clock ?s' + of_nat (length ev), radio_serial := rest\<rparr> =
      s\<lparr>clock := clock s + of_nat (length (x # ev)), radio_serial := rest\<rparr>"
    by simp
  have len: "unat mc < length p" using Cons.prems(1) strlen_P_le [of p] by simp
  show ?case
  proof (cases x)
    case None
    with Cons.prems have ca: "cursor_after p (unat mc) (bytes_of ev) = Some c'" by simp
    from Cons.IH [OF Cons.prems(1) _ tm ca] fin None lt Cons.prems(2)
    show ?thesis by (simp add: unfold it add.assoc)
  next
    case (Some b)
    show ?thesis
    proof (cases "b = p ! unat mc")
      case False
      with Cons.prems Some have ca: "cursor_after p (unat (0 :: 8 word)) (bytes_of ev) = Some c'"
        by simp
      have z: "unat (0 :: 8 word) < strlen_P p" using Cons.prems(1) by simp
      from Cons.IH [OF z _ tm ca] fin Some False lt Cons.prems(2)
      show ?thesis by (simp add: unfold it add.assoc)
    next
      case True
      with Cons.prems(4) Some len have ns: "Suc (unat mc) \<noteq> strlen_P p"
        by (auto split: if_splits)
      then have nx: "unat (mc + 1) < strlen_P p"
        using Cons.prems(1) cursor_succ [OF Cons.prems(1) n] by simp
      from True Cons.prems(4) Some len ns
      have ca: "cursor_after p (unat (mc + 1)) (bytes_of ev) = Some c'"
        by (simp add: cursor_succ [OF Cons.prems(1) n])
      from Cons.IH [OF nx _ tm ca] fin Some True ns lt Cons.prems(2)
      show ?thesis by (simp add: unfold it add.assoc)
    qed
  qed
qed


lemma bytes_of_Nil_last: "bytes_of ev = [] \<Longrightarrow> ev \<noteq> [] \<Longrightarrow> last ev = None"
  by (induction ev rule: bytes_of.induct) (auto split: if_splits)

lemma bytes_of_split:
  "bytes_of ev = A @ B \<Longrightarrow> \<exists>ev1 ev2. ev = ev1 @ ev2 \<and> bytes_of ev1 = A \<and> bytes_of ev2 = B"
proof (induction ev arbitrary: A rule: bytes_of.induct)
  case 1
  then show ?case by simp
next
  case (2 r)
  then obtain ev1 ev2 where "r = ev1 @ ev2" "bytes_of ev1 = A" "bytes_of ev2 = B" by force
  then have "None # r = (None # ev1) @ ev2 \<and> bytes_of (None # ev1) = A \<and> bytes_of ev2 = B"
    by simp
  then show ?case by blast
next
  case (3 b r)
  show ?case
  proof (cases A)
    case Nil
    with 3(2) have "Some b # r = [] @ (Some b # r) \<and> bytes_of [] = A \<and> bytes_of (Some b # r) = B"
      by simp
    then show ?thesis by blast
  next
    case (Cons a A')
    with 3(2) have "bytes_of r = A' @ B" and ab: "a = b" by simp_all
    from 3(1) [OF this(1)] obtain ev1 ev2 where
      "r = ev1 @ ev2" "bytes_of ev1 = A'" "bytes_of ev2 = B" by blast
    with Cons ab have
      "Some b # r = (Some b # ev1) @ ev2 \<and> bytes_of (Some b # ev1) = A \<and> bytes_of ev2 = B"
      by simp
    then show ?thesis by blast
  qed
qed

lemma strlen_P_no_zero: "0 \<notin> set p \<Longrightarrow> strlen_P p = length p"
  unfolding strlen_P_def by (induction p) auto

lemma unat_timeout: "unat (ucast (t :: 16 word) :: 32 word) = unat t"
proof -
  have "unat t < 2 ^ 16" using unsigned_less [of t] by simp
  then have "unat t < 2 ^ 32" by simp
  then show ?thesis by (simp add: unsigned_ucast_eq take_bit_nat_eq_self)
qed

lemma deadline_no_wrap:
  assumes "unat (c :: 32 word) + unat (t :: 16 word) < 2 ^ 32"
  shows "unat (c + ucast t) = unat c + unat t"
  using assms by (simp add: unat_word_ariths unat_timeout)

text \<open>Reading the rest of the response string, \<open>matched_chars\<close> bytes of it being matched.\<close>

lemma read_for_response_loop_match:
  assumes n: "strlen_P p < 256"
  shows "unat mc < strlen_P p \<Longrightarrow> radio_serial s = ev @ rest \<Longrightarrow>
    unat (clock s) + length ev \<le> unat d \<Longrightarrow> ev \<noteq> [] \<Longrightarrow> last ev \<noteq> None \<Longrightarrow>
    bytes_of ev = drop (unat mc) (take (strlen_P p) p) \<Longrightarrow>
    read_for_response_loop p (of_nat (strlen_P p)) d (mc, s) =
      Inr (LITE_ESP8266_SUCCESS,
           s\<lparr>clock := clock s + of_nat (length ev), radio_serial := rest\<rparr>)"
proof (induction ev arbitrary: mc s)
  case Nil
  then show ?case by simp
next
  case (Cons x ev)
  note it = read_for_response_iter_cases [OF Cons.prems(1) n, of d s]
  note unfold = read_for_response_loop.simps [of p "of_nat (strlen_P p)" d "(mc, s)"]
  have lt: "clock s < d" using Cons.prems(3) by (simp add: word_less_nat_alt)
  let ?s' = "s\<lparr>clock := clock s + 1, radio_serial := ev @ rest\<rparr>"
  have tm: "unat (clock ?s') + length ev \<le> unat d"
    using Cons.prems(3) clock_succ [OF lt] by simp
  have len: "unat mc < length (take (strlen_P p) p)"
    using Cons.prems(1) strlen_P_le [of p] by simp
  note dr = Cons_nth_drop_Suc [OF len, symmetric]
  show ?case
  proof (cases x)
    case None
    with Cons.prems have ne: "ev \<noteq> []" and la: "last ev \<noteq> None"
      and rem: "bytes_of ev = drop (unat mc) (take (strlen_P p) p)"
      by (auto split: if_splits)
    from Cons.IH [OF Cons.prems(1) _ tm ne la rem] None lt Cons.prems(2)
    show ?thesis by (simp add: unfold it add.assoc)
  next
    case (Some b)
    with Cons.prems(6) dr Cons.prems(1)
    have b: "b = p ! unat mc"
      and rem: "bytes_of ev = drop (Suc (unat mc)) (take (strlen_P p) p)"
      by simp_all
    show ?thesis
    proof (cases "Suc (unat mc) = strlen_P p")
      case True
      with rem strlen_P_le [of p] have "bytes_of ev = []" by simp
      with Cons.prems(5) bytes_of_Nil_last [of ev] have "ev = []" by (auto split: if_splits)
      with Some b True lt Cons.prems(2) show ?thesis by (simp add: unfold it)
    next
      case False
      then have nx: "unat (mc + 1) < strlen_P p"
        using Cons.prems(1) cursor_succ [OF Cons.prems(1) n] by simp
      from False Cons.prems(1) rem strlen_P_le [of p] have "bytes_of ev \<noteq> []" by simp
      then have ne: "ev \<noteq> []" by auto
      with Cons.prems(5) have la: "last ev \<noteq> None" by simp
      from rem have rem': "bytes_of ev = drop (unat (mc + 1)) (take (strlen_P p) p)"
        by (simp add: cursor_succ [OF Cons.prems(1) n])
      from Cons.IH [OF nx _ tm ne la rem'] Some b False lt Cons.prems(2)
      show ?thesis by (simp add: unfold it add.assoc)
    qed
  qed
qed

lemma read_for_response_success:
  assumes "p \<noteq> []" and "length p < 256" and "0 \<notin> set p"
    and "radio_serial s = ev @ rest"
    and "bytes_of ev = before @ p"
    and "last ev \<noteq> None"
    and "cursor_after p 0 before = Some 0"
    and "length ev < unat timeout_ms"
    and "unat (clock s) + unat timeout_ms < 2 ^ 32"
  shows "read_for_response p timeout_ms s =
     Inr (LITE_ESP8266_SUCCESS,
          s\<lparr>clock := clock s + 1 + of_nat (length ev), radio_serial := rest\<rparr>)"
proof -
  have sl: "strlen_P p = length p" using assms(3) by (rule strlen_P_no_zero)
  have n: "strlen_P p < 256" and z: "unat (0 :: 8 word) < strlen_P p"
    using assms(1, 2) sl by simp_all
  obtain ev1 ev2 where ev: "ev = ev1 @ ev2" and b1: "bytes_of ev1 = before"
    and b2: "bytes_of ev2 = p"
    using bytes_of_split [OF assms(5)] by blast
  from b2 assms(1) have ne: "ev2 \<noteq> []" by auto
  with assms(6) ev have la: "last ev2 \<noteq> None" by simp
  let ?d = "clock s + ucast timeout_ms"
  let ?s1 = "s\<lparr>clock := clock s + 1\<rparr>"
  let ?s2 = "s\<lparr>clock := clock s + 1 + of_nat (length ev1), radio_serial := ev2 @ rest\<rparr>"
  have ud: "unat ?d = unat (clock s) + unat timeout_ms"
    using assms(9) by (rule deadline_no_wrap)
  have u1: "unat (clock s + 1) = unat (clock s) + 1"
    using assms(8, 9) by (simp add: unat_word_ariths)
  have t1: "unat (clock ?s1) + length ev1 \<le> unat ?d"
    using assms(8) ev by (simp add: ud u1)
  have u2: "unat (clock s + 1 + of_nat (length ev1)) = unat (clock s) + 1 + length ev1"
    using clock_advance [OF t1] by (simp add: u1)
  have t2: "unat (clock ?s2) + length ev2 \<le> unat ?d"
    using assms(8) ev by (simp add: ud u2)
  have r1: "radio_serial ?s1 = ev1 @ ev2 @ rest" using assms(4) ev by simp
  have r2: "radio_serial ?s2 = ev2 @ rest" by simp
  have c1: "cursor_after p (unat (0 :: 8 word)) (bytes_of ev1) = Some 0"
    using assms(7) b1 by simp
  have c2: "bytes_of ev2 = drop (unat (0 :: 8 word)) (take (strlen_P p) p)"
    using b2 sl by simp
  have "read_for_response p timeout_ms s =
      read_for_response_loop p (of_nat (strlen_P p)) ?d (0, ?s1)"
    by (simp add: read_for_response_def millis_def)
  also have "\<dots> = read_for_response_loop p (of_nat (strlen_P p)) ?d (0, ?s2)"
    using read_for_response_loop_prefix [OF n z r1 t1 c1] by simp
  also have "\<dots> = Inr (LITE_ESP8266_SUCCESS,
      s\<lparr>clock := clock s + 1 + of_nat (length ev1) + of_nat (length ev2),
        radio_serial := rest\<rparr>)"
    using read_for_response_loop_match [OF n z r2 t2 ne la c2] by simp
  finally show ?thesis using ev by (simp add: add.assoc)
qed

text \<open>
  C2, amended: let the response string \<open>p\<close> have 1 to 255 bytes. Let the line carry the
  bytes \<open>before @ p\<close>, in the stretch \<open>ev\<close> that ends with the last byte of \<open>p\<close>, where
  the bytes \<open>before\<close> leave the match cursor at zero (no partial match is pending when the
  occurrence starts, and none was completed earlier); let the stretch take fewer polls
  than the timeout has milliseconds, and let the deadline not wrap around the 32-bit
  clock. Then \<open>read_for_response\<close> returns Success, and what is left on the line is
  exactly what follows the occurrence. By \<open>cursor_after_fresh\<close> below, the condition on
  \<open>before\<close> holds whenever the first byte of \<open>p\<close> does not occur in \<open>before\<close>.
\<close>

theorem read_for_response_finds_token:
  assumes "p \<noteq> []" and "length p < 256" and "0 \<notin> set p"
    and "radio_serial s = ev @ rest"
    and "bytes_of ev = before @ p"
    and "last ev \<noteq> None"
    and "cursor_after p 0 before = Some 0"
    and "length ev < unat timeout_ms"
    and "unat (clock s) + unat timeout_ms < 2 ^ 32"
  shows "read_for_response p timeout_ms s =
     Inr (LITE_ESP8266_SUCCESS,
          s\<lparr>clock := clock s + 1 + of_nat (length ev), radio_serial := rest\<rparr>)"
  using assms by (rule read_for_response_success)

lemma cursor_after_fresh:
  "p \<noteq> [] \<Longrightarrow> p ! 0 \<notin> set before \<Longrightarrow> cursor_after p 0 before = Some 0"
  by (induction before) auto


text \<open>
  C2, as the specification states it: every stream that contains the string in time makes
  \<open>read_for_response\<close> return Success. The line \<open>AAB\<close> contains \<open>AB\<close>; the second \<open>A\<close>
  is compared with \<open>B\<close>, resets the cursor and is dropped, so the \<open>B\<close> that follows is
  compared with \<open>A\<close>, and the call times out.
\<close>

theorem read_for_response_overlap_counterexample:
  "ascii ''AAB'' = [65] @ ascii ''AB'' \<and>
   read_for_response (ascii ''AB'') 20 \<lparr>clock = 0, radio_serial = map Some (ascii ''AAB'')\<rparr> =
     Inr (LITE_ESP8266_TIMEOUT, \<lparr>clock = 21, radio_serial = []\<rparr>)"
  by code_simp

theorem read_for_response_finds_token_witness:
  "read_for_response (ascii ''OK'') 100
     \<lparr>clock = 0, radio_serial = [Some 79, None, Some 13, Some 79, Some 75, Some 10]\<rparr> =
     Inr (LITE_ESP8266_SUCCESS, \<lparr>clock = 6, radio_serial = [Some 10]\<rparr>)"
  using read_for_response_finds_token
    [of "ascii ''OK''" "\<lparr>clock = 0, radio_serial = [Some 79, None, Some 13, Some 79, Some 75, Some 10]\<rparr>"
      "[Some 79, None, Some 13, Some 79, Some 75]" "[Some 10]" "[79, 13]" 100]
  by (simp add: ascii_def strlen_P_def)


section \<open>copy_serial_to_buffer reads a field\<close>

lemma count_succ:
  assumes "unat (i :: 16 word) + 1 < unat (m :: 16 word)"
  shows "unat (i + 1) = Suc (unat i)"
proof -
  have "unat m < 2 ^ 16" using unsigned_less [of m] by simp
  with assms show ?thesis by (simp add: unat_word_ariths)
qed

lemma capacity_pred:
  assumes "0 < unat (m :: 16 word)"
  shows "unat (m - 1) = unat m - 1"
proof -
  from assms have "m \<noteq> 0" by auto
  then show ?thesis by (rule unat_minus_one)
qed

text \<open>
  The loop with \<open>bytes_read = i\<close>, the line carrying the bytes \<open>field\<close> and then the
  terminator, and room left for all of them.
\<close>

lemma copy_serial_to_buffer_loop_field:
  "unat i + length field < unat max_bytes - 1 \<Longrightarrow> unat max_bytes \<le> length buffer \<Longrightarrow>
   radio_serial s = ev @ rest \<Longrightarrow> bytes_of ev = field @ [read_until] \<Longrightarrow>
   last ev \<noteq> None \<Longrightarrow> read_until \<notin> set field \<Longrightarrow>
   unat (clock s) + length ev \<le> unat d \<Longrightarrow>
   copy_serial_to_buffer_loop buffer read_until max_bytes d i s =
     Inr (LITE_ESP8266_SUCCESS,
          take (unat i) buffer @ field @ 0 # drop (unat i + length field + 1) buffer,
          s\<lparr>clock := clock s + of_nat (length ev), radio_serial := rest\<rparr>)"
proof (induction ev arbitrary: buffer i s field)
  case Nil
  then show ?case by simp
next
  case (Cons x ev)
  note unfold = copy_serial_to_buffer_loop.simps [of buffer read_until max_bytes d i s]
  have lt: "clock s < d" using Cons.prems(7) by (simp add: word_less_nat_alt)
  let ?s' = "s\<lparr>clock := clock s + 1, radio_serial := ev @ rest\<rparr>"
  have tm: "unat (clock ?s') + length ev \<le> unat d"
    using Cons.prems(7) clock_succ [OF lt] by simp
  have rs: "radio_serial ?s' = ev @ rest" by simp
  have ib: "unat i < length buffer" using Cons.prems(1, 2) by simp
  show ?case
  proof (cases x)
    case None
    with Cons.prems have b: "bytes_of ev = field @ [read_until]" and la: "last ev \<noteq> None"
      by (auto split: if_splits)
    from Cons.IH [OF Cons.prems(1, 2) rs b la Cons.prems(6) tm] None lt Cons.prems(3)
    show ?thesis by (simp add: unfold millis_def available_def add.assoc)
  next
    case (Some b)
    show ?thesis
    proof (cases field)
      case Nil
      with Cons.prems(4) Some have b: "b = read_until" and "bytes_of ev = []" by simp_all
      with Cons.prems(5) bytes_of_Nil_last [of ev] have "ev = []" by (auto split: if_splits)
      have res: "take (unat i) buffer @ 0 # drop (Suc (unat i)) buffer = buffer[unat i := 0]"
        using ib by (simp add: upd_conv_take_nth_drop)
      from \<open>ev = []\<close> Some b Nil lt Cons.prems(3) ib show ?thesis
        by (simp add: unfold millis_def available_def read_def poke_def res)
    next
      case (Cons f fs)
      with Cons.prems(4, 6) Some have b: "b = f" and ne: "f \<noteq> read_until"
        and rem: "bytes_of ev = fs @ [read_until]" and nin: "read_until \<notin> set fs"
        by auto
      from Cons.prems(1) Cons have room: "unat i + 1 < unat max_bytes" by simp
      note su = count_succ [OF room]
      have pos: "0 < unat max_bytes" using room by simp
      from Cons.prems(1) Cons have nfull: "\<not> max_bytes - 1 \<le> i + 1"
        by (simp add: word_le_nat_alt su capacity_pred [OF pos])
      from Cons.prems(1) Cons have r': "unat (i + 1) + length fs < unat max_bytes - 1"
        by (simp add: su)
      from Cons.prems(5) rem have la: "last ev \<noteq> None" by (auto split: if_splits)
      have lb: "unat max_bytes \<le> length (buffer[unat i := f])" using Cons.prems(2) by simp
      have res: "take (unat (i + 1)) (buffer[unat i := f]) @ fs @ 0 #
            drop (unat (i + 1) + length fs + 1) (buffer[unat i := f]) =
          take (unat i) buffer @ field @ 0 # drop (unat i + length field + 1) buffer"
        using ib Cons by (simp add: su take_Suc_conv_app_nth)
      from Cons.IH [OF r' lb rs rem la nin tm] Some b ne nfull lt Cons.prems(3) ib res
      show ?thesis
        by (simp add: unfold millis_def available_def read_def poke_def add.assoc)
    qed
  qed
qed

lemma copy_serial_to_buffer_success:
  assumes "2 \<le> unat max_bytes"
    and "unat max_bytes \<le> length buffer"
    and "radio_serial s = ev @ rest"
    and "bytes_of ev = field @ [read_until]"
    and "last ev \<noteq> None"
    and "read_until \<notin> set field"
    and "length field < unat max_bytes - 1"
    and "length ev < unat timeout_ms"
    and "unat (clock s) + unat timeout_ms < 2 ^ 32"
  shows "copy_serial_to_buffer buffer read_until max_bytes timeout_ms s =
     Inr (LITE_ESP8266_SUCCESS, field @ 0 # drop (Suc (length field)) buffer,
          s\<lparr>clock := clock s + 1 + of_nat (length ev), radio_serial := rest\<rparr>)"
proof -
  let ?d = "clock s + ucast timeout_ms"
  let ?s1 = "s\<lparr>clock := clock s + 1\<rparr>"
  have ud: "unat ?d = unat (clock s) + unat timeout_ms"
    using assms(9) by (rule deadline_no_wrap)
  have u1: "unat (clock s + 1) = unat (clock s) + 1"
    using assms(8, 9) by (simp add: unat_word_ariths)
  have t1: "unat (clock ?s1) + length ev \<le> unat ?d"
    using assms(8) by (simp add: ud u1)
  have r1: "radio_serial ?s1 = ev @ rest" using assms(3) by simp
  have f: "unat (0 :: 16 word) + length field < unat max_bytes - 1" using assms(7) by simp
  have "copy_serial_to_buffer buffer read_until max_bytes timeout_ms s =
      copy_serial_to_buffer_loop buffer read_until max_bytes ?d 0 ?s1"
    by (simp add: copy_serial_to_buffer_def millis_def)
  also have "\<dots> = Inr (LITE_ESP8266_SUCCESS, field @ 0 # drop (Suc (length field)) buffer,
      s\<lparr>clock := clock s + 1 + of_nat (length ev), radio_serial := rest\<rparr>)"
    using copy_serial_to_buffer_loop_field [OF f assms(2) r1 assms(4, 5, 6) t1] by simp
  finally show ?thesis .
qed

text \<open>
  C8: for a capacity \<open>max_bytes\<close> of at least 2 (and a buffer at least that long), when
  the line carries \<open>k\<close> bytes \<open>field\<close> without the terminator, \<open>k < max_bytes - 1\<close>, and
  then the terminator, all within fewer polls than the timeout has milliseconds and
  without the deadline wrapping around, \<open>copy_serial_to_buffer\<close> returns Success, the
  buffer starts with \<open>field\<close> followed by a zero byte (what lies behind is untouched),
  and the terminator is gone from the line: what follows it is read next.
\<close>

theorem copy_serial_to_buffer_field:
  assumes "2 \<le> unat max_bytes"
    and "unat max_bytes \<le> length buffer"
    and "radio_serial s = ev @ rest"
    and "bytes_of ev = field @ [read_until]"
    and "last ev \<noteq> None"
    and "read_until \<notin> set field"
    and "length field < unat max_bytes - 1"
    and "length ev < unat timeout_ms"
    and "unat (clock s) + unat timeout_ms < 2 ^ 32"
  shows "copy_serial_to_buffer buffer read_until max_bytes timeout_ms s =
     Inr (LITE_ESP8266_SUCCESS, field @ 0 # drop (Suc (length field)) buffer,
          s\<lparr>clock := clock s + 1 + of_nat (length ev), radio_serial := rest\<rparr>)"
  using assms by (rule copy_serial_to_buffer_success)

theorem copy_serial_to_buffer_field_witness:
  "copy_serial_to_buffer [7, 7, 7, 7, 7] (of_char CHR '':'') 5 100
     \<lparr>clock = 0, radio_serial = [Some 53, None, Some 50, Some 58, Some 120]\<rparr> =
     Inr (LITE_ESP8266_SUCCESS, [53, 50, 0, 7, 7], \<lparr>clock = 5, radio_serial = [Some 120]\<rparr>)"
  using copy_serial_to_buffer_field
    [of 5 "[7, 7, 7, 7, 7]" "\<lparr>clock = 0, radio_serial = [Some 53, None, Some 50, Some 58, Some 120]\<rparr>"
      "[Some 53, None, Some 50, Some 58]" "[Some 120]" "[53, 50]" "of_char CHR '':''" 100]
  by simp


section \<open>get_response_packet with a ceiling below the payload length\<close>

lemma bytes_of_last: "ev \<noteq> [] \<Longrightarrow> last ev \<noteq> None \<Longrightarrow> bytes_of ev \<noteq> []"
  using bytes_of_Nil_last [of ev] by auto


lemma wait_for_data_ready:
  "radio_serial s = Some b # r \<Longrightarrow> wait_for_data d s = s"
  by (subst wait_for_data.simps) (simp add: available_def)

lemma wait_for_data_idle:
  "radio_serial s = None # r \<Longrightarrow> clock s < d \<Longrightarrow>
     wait_for_data d s = wait_for_data d (s\<lparr>clock := clock s + 1, radio_serial := r\<rparr>)"
proof -
  assume r: "radio_serial s = None # r" and lt: "clock s < d"
  have sw: "s\<lparr>radio_serial := r, clock := clock s + 1\<rparr> =
      s\<lparr>clock := clock s + 1, radio_serial := r\<rparr>" by simp
  show ?thesis
    by (subst wait_for_data.simps) (simp add: available_def millis_def r lt sw)
qed

lemma packet_data_loop_drain:
  "radio_serial s = ev @ rest \<Longrightarrow> bytes_of ev = pl \<Longrightarrow> ev = [] \<or> last ev \<noteq> None \<Longrightarrow>
   unat i + length pl = unat n \<Longrightarrow> length data = unat a \<Longrightarrow> 0 < unat a \<Longrightarrow>
   unat (clock s) + length ev \<le> unat d \<Longrightarrow>
   packet_data_loop n a d i data s =
     Inr (store (unat i) (unat a - 1) pl data,
          s\<lparr>clock := clock s + of_nat (length ev), radio_serial := rest\<rparr>)"
proof (induction ev arbitrary: i data s pl)
  case Nil
  then have "\<not> i < n" and "s\<lparr>radio_serial := rest\<rparr> = s"
    by (auto simp: word_less_nat_alt)
  with Nil show ?case by (simp add: packet_data_loop.simps [of n a d i data s])
next
  case (Cons x ev)
  note unfold = packet_data_loop.simps [of n a d i data s]
  have lt: "clock s < d" using Cons.prems(7) by (simp add: word_less_nat_alt)
  let ?s' = "s\<lparr>clock := clock s + 1, radio_serial := ev @ rest\<rparr>"
  have tm: "unat (clock ?s') + length ev \<le> unat d"
    using Cons.prems(7) clock_succ [OF lt] by simp
  have rs: "radio_serial ?s' = ev @ rest" by simp
  from Cons.prems(2, 3) bytes_of_last [of "x # ev"] have "pl \<noteq> []" by auto
  with Cons.prems(4) have inr: "i < n" by (cases pl) (auto simp: word_less_nat_alt)
  show ?case
  proof (cases x)
    case None
    with Cons.prems have b: "bytes_of ev = pl" and la: "ev = [] \<or> last ev \<noteq> None"
      by (auto split: if_splits)
    from None Cons.prems(1) lt have w: "wait_for_data d s = wait_for_data d ?s'"
      using wait_for_data_idle [of s "ev @ rest" d] by simp
    have "packet_data_loop n a d i data s = packet_data_loop n a d i data ?s'"
      using inr by (simp add: unfold packet_data_loop.simps [of n a d i data ?s'] w)
    with Cons.IH [OF rs b la Cons.prems(4, 5, 6) tm] show ?thesis
      by (simp add: add.assoc)
  next
    case (Some b)
    with Cons.prems(2) obtain pl' where pl: "pl = b # pl'" and b: "bytes_of ev = pl'" by auto
    from Cons.prems(3) have la: "ev = [] \<or> last ev \<noteq> None" by (auto split: if_splits)
    from Some Cons.prems(1) have w: "wait_for_data d s = s"
      using wait_for_data_ready [of s b "ev @ rest" d] by simp
    have nt: "\<not> d < clock s" using lt by simp
    note su = index_succ [OF inr]
    from Cons.prems(4) pl have r': "unat (i + 1) + length pl' = unat n" by (simp add: su)
    have cmp: "(i < a - 1) = (unat i < unat a - 1)"
      by (simp add: word_less_nat_alt capacity_pred [OF Cons.prems(6)])
    show ?thesis
    proof (cases "unat i < unat a - 1")
      case True
      then have ib: "unat i < length data" using Cons.prems(5) by simp
      have ld: "length (data[unat i := b]) = unat a" using Cons.prems(5) by simp
      from Cons.IH [OF rs b la r' ld Cons.prems(6) tm] True ib inr nt Some Cons.prems(1) pl
      show ?thesis
        by (simp add: unfold w millis_def read_def poke_def cmp su add.assoc)
    next
      case False
      from Cons.IH [OF rs b la r' Cons.prems(5, 6) tm] False inr nt Some Cons.prems(1) pl
      show ?thesis
        by (simp add: unfold w millis_def read_def poke_def cmp su add.assoc)
    qed
  qed
qed







section \<open>The packet extractors and the status of the length field\<close>

text \<open>
  When do the two functions return null? Exactly when the matcher for the marker times
  out, and for \<open>get_http_response\<close> also when the matcher for the blank line does. The
  result code \<open>r'\<close> of the capture of the length field takes no part in it.
\<close>

lemma packet_null_iff_marker_timeout:
  "(get_response_packet m t b s = Inr (None, s') \<longleftrightarrow>
      read_for_response ESP8266_DATA_PACKET CLIENT_CONNECT_TIMEOUT (snd (millis s)) =
        Inr (LITE_ESP8266_TIMEOUT, s')) \<and>
   (get_http_response m t b s = Inr (None, s') \<longleftrightarrow>
      read_for_response ESP8266_CONTENT_LENGTH_HEADER CLIENT_CONNECT_TIMEOUT (snd (millis s)) =
        Inr (LITE_ESP8266_TIMEOUT, s') \<or>
      (\<exists>s2 r' buffer s3 content_length.
         read_for_response ESP8266_CONTENT_LENGTH_HEADER CLIENT_CONNECT_TIMEOUT (snd (millis s)) =
           Inr (LITE_ESP8266_SUCCESS, s2) \<and>
         copy_serial_to_buffer b 13 16 COMMAND_RESPONSE_TIMEOUT s2 = Inr (r', buffer, s3) \<and>
         parse_length buffer = Inr content_length \<and>
         read_for_response ESP8266_CRLFCRLF CLIENT_CONNECT_TIMEOUT s3 =
           Inr (LITE_ESP8266_TIMEOUT, s')))"
proof (intro conjI)
  show "get_response_packet m t b s = Inr (None, s') \<longleftrightarrow>
      read_for_response ESP8266_DATA_PACKET CLIENT_CONNECT_TIMEOUT (snd (millis s)) =
        Inr (LITE_ESP8266_TIMEOUT, s')"
    by (auto simp: get_response_packet_def split: prod.splits sum.splits
        dest: read_for_response_code)
next
  show "get_http_response m t b s = Inr (None, s') \<longleftrightarrow>
      read_for_response ESP8266_CONTENT_LENGTH_HEADER CLIENT_CONNECT_TIMEOUT (snd (millis s)) =
        Inr (LITE_ESP8266_TIMEOUT, s') \<or>
      (\<exists>s2 r' buffer s3 content_length.
         read_for_response ESP8266_CONTENT_LENGTH_HEADER CLIENT_CONNECT_TIMEOUT (snd (millis s)) =
           Inr (LITE_ESP8266_SUCCESS, s2) \<and>
         copy_serial_to_buffer b 13 16 COMMAND_RESPONSE_TIMEOUT s2 = Inr (r', buffer, s3) \<and>
         parse_length buffer = Inr content_length \<and>
         read_for_response ESP8266_CRLFCRLF CLIENT_CONNECT_TIMEOUT s3 =
           Inr (LITE_ESP8266_TIMEOUT, s'))"
    by (auto simp: get_http_response_def split: prod.splits sum.splits
        dest: read_for_response_code)
qed

text \<open>
  A packet whose length has four digits, \<open>+IPD,1430:\<close> followed by 1430 payload bytes
  that wait on the line. The five-byte length buffer is full after the four digits, so
  the capture ends with LengthExceeded before it has seen the colon, and the colon is
  still on the line when the payload loop starts.
\<close>

lemma data_packet_marker_read:
  "read_for_response ESP8266_DATA_PACKET CLIENT_CONNECT_TIMEOUT
     \<lparr>clock = 1, radio_serial = map Some (ascii ''+IPD,'') @ rest\<rparr> =
     Inr (LITE_ESP8266_SUCCESS, \<lparr>clock = 7, radio_serial = rest\<rparr>)"
  by code_simp

lemma length_field_four_digits:
  "copy_serial_to_buffer [7, 7, 7, 7, 7] 58 5 COMMAND_RESPONSE_TIMEOUT
     \<lparr>clock = 7, radio_serial = map Some (ascii ''1430'') @ rest\<rparr> =
     Inr (LITE_ESP8266_LENGTH_EXCEEDED, [49, 52, 51, 48, 0],
          \<lparr>clock = 12, radio_serial = rest\<rparr>)"
  by code_simp

lemma bytes_of_replicate: "bytes_of (replicate n (Some b)) = replicate n b"
  by (induction n) simp_all

lemma store_full: "cap \<le> i \<Longrightarrow> store i cap bs data = data"
  by (induction bs arbitrary: i) simp_all

lemma read_packet_data_1430:
  "read_packet_data 3 1430 5000
     \<lparr>clock = 12, radio_serial = Some 58 # replicate 1429 (Some 97) @ [Some 98]\<rparr> =
     Inr ([58, 97, 0], \<lparr>clock = 1442, radio_serial = [Some 98]\<rparr>)"
proof -
  let ?ev = "Some (58 :: byte) # replicate 1429 (Some 97)"
  let ?s = "\<lparr>clock = 12, radio_serial = Some 58 # replicate 1429 (Some 97) @ [Some 98]\<rparr>"
  have "packet_data_loop 1430 3 5000 0 [0, 0, 0] ?s =
      Inr (store (unat (0 :: 16 word)) (unat (3 :: 16 word) - 1) (58 # replicate 1429 97)
             [0, 0, 0],
           ?s\<lparr>clock := clock ?s + of_nat (length ?ev), radio_serial := [Some 98]\<rparr>)"
  proof (rule packet_data_loop_drain [where ev = ?ev])
    show "radio_serial ?s = ?ev @ [Some 98]" by simp
    show "bytes_of ?ev = 58 # replicate 1429 97" by (simp add: bytes_of_replicate)
    show "?ev = [] \<or> last ?ev \<noteq> None" by simp
    show "unat (0 :: 16 word) + length (58 # replicate 1429 (97 :: byte)) = unat (1430 :: 16 word)"
      by simp
    show "length [0 :: byte, 0, 0] = unat (3 :: 16 word)" by simp
    show "0 < unat (3 :: 16 word)" by simp
    show "unat (clock ?s) + length ?ev \<le> unat (5000 :: 32 word)" by simp
  qed
  moreover have "replicate 1429 (97 :: byte) = 97 # replicate 1428 97"
  proof -
    have "(1429 :: nat) = Suc 1428" by simp
    then show ?thesis by (simp only: replicate.simps)
  qed
  then have "store (unat (0 :: 16 word)) (unat (3 :: 16 word) - 1) (58 # replicate 1429 97)
      [0, 0, 0] = [58, 97, 0]"
    by (simp add: store_full)
  moreover have "replicate (unat (3 :: 16 word)) (0 :: byte) = [0, 0, 0]"
  proof -
    have "unat (3 :: 16 word) = Suc (Suc (Suc 0))" by simp
    then show ?thesis by (simp only: replicate.simps)
  qed
  moreover have "bytes_allocated 3 1430 = 3" by (simp add: bytes_allocated_def)
  ultimately show ?thesis by (simp add: read_packet_data_def)
qed

lemma get_response_packet_1430:
  "get_response_packet 3 5000 [7, 7, 7, 7, 7]
     \<lparr>clock = 0,
        radio_serial = map Some (ascii ''+IPD,1430:'') @ replicate 1429 (Some 97) @ [Some 98]\<rparr> =
     Inr (Some [58, 97, 0], \<lparr>clock = 1442, radio_serial = [Some 98]\<rparr>)"
proof -
  let ?payload = "Some 58 # replicate 1429 (Some 97) @ [Some 98]"
  have line: "map Some (ascii ''+IPD,1430:'') @ replicate 1429 (Some 97) @ [Some 98] =
      map Some (ascii ''+IPD,'') @ map Some (ascii ''1430'') @ ?payload"
    by (simp add: ascii_def)
  have "parse_length [49, 52, 51, 48, 0] = Inr 1430"
    by (simp add: parse_length_def atoi_def isspace_def isdigit_def)
  moreover have "(0 :: 32 word) + ucast (5000 :: 16 word) = 5000" by simp
  ultimately show ?thesis
    unfolding line
    by (simp add: get_response_packet_def millis_def data_packet_marker_read
        length_field_four_digits read_packet_data_1430)
qed

text \<open>
  C1 asks that a Timeout or a LengthExceeded of the step that captures the length field
  makes \<open>get_response_packet\<close> and \<open>get_http_response\<close> return null. The code does not
  look at what \<open>copy_serial_to_buffer\<close> returns, and hands back a region in each of
  these runs.
  \<^item> The line carries \<open>+IPD,1430:\<close> and 1430 payload bytes, 1429 times \<open>a\<close> and then
    \<open>b\<close>. The capture returns LengthExceeded after the four digits. The function reads
    1430 bytes from the colon on and returns a region that starts with the colon; the
    last payload byte stays on the line.
  \<^item> The line carries \<open>+IPD,12\<close> and then nothing. The capture returns Timeout and leaves
    the two digits in the buffer with no terminator behind them; \<open>atoi\<close> stops at the
    byte \<open>7\<close> the stack held there. The function returns a region of three zero bytes.
  \<^item> The line carries \<open>Content-Length: 0000000000000002\<close>, the blank line and \<open>ab\<close>. The
    capture of \<open>get_http_response\<close> returns LengthExceeded after fifteen digits, the
    length read is 0, and the function returns a region of one zero byte.
\<close>

theorem packet_extraction_ignores_capture_status:
  "copy_serial_to_buffer [7, 7, 7, 7, 7] (of_char CHR '':'') 5 COMMAND_RESPONSE_TIMEOUT
     \<lparr>clock = 7,
        radio_serial = map Some (ascii ''1430:'') @ replicate 1429 (Some 97) @ [Some 98]\<rparr> =
     Inr (LITE_ESP8266_LENGTH_EXCEEDED, [49, 52, 51, 48, 0],
          \<lparr>clock = 12, radio_serial = Some 58 # replicate 1429 (Some 97) @ [Some 98]\<rparr>) \<and>
   get_response_packet 3 5000 [7, 7, 7, 7, 7]
     \<lparr>clock = 0,
        radio_serial = map Some (ascii ''+IPD,1430:'') @ replicate 1429 (Some 97) @ [Some 98]\<rparr> =
     Inr (Some [58, 97, 0], \<lparr>clock = 1442, radio_serial = [Some 98]\<rparr>) \<and>
   copy_serial_to_buffer [7, 7, 7, 7, 7] (of_char CHR '':'') 5 COMMAND_RESPONSE_TIMEOUT
     \<lparr>clock = 7, radio_serial = map Some (ascii ''12'')\<rparr> =
     Inr (LITE_ESP8266_TIMEOUT, [49, 50, 7, 7, 7], \<lparr>clock = 1008, radio_serial = []\<rparr>) \<and>
   get_response_packet 3 20 [7, 7, 7, 7, 7]
     \<lparr>clock = 0, radio_serial = map Some (ascii ''+IPD,12'')\<rparr> =
     Inr (Some [0, 0, 0], \<lparr>clock = 1010, radio_serial = []\<rparr>) \<and>
   copy_serial_to_buffer (replicate 16 7) 13 16 COMMAND_RESPONSE_TIMEOUT
     \<lparr>clock = 18,
        radio_serial =
          map Some (ascii ''0000000000000002'' @ [13, 10, 13, 10] @ ascii ''ab'')\<rparr> =
     Inr (LITE_ESP8266_LENGTH_EXCEEDED, replicate 15 48 @ [0],
          \<lparr>clock = 34,
             radio_serial = map Some (ascii ''2'' @ [13, 10, 13, 10] @ ascii ''ab'')\<rparr>) \<and>
   get_http_response 3 5000 (replicate 16 7)
     \<lparr>clock = 0,
        radio_serial =
          map Some (ascii ''Content-Length: 0000000000000002'' @ [13, 10, 13, 10] @
            ascii ''ab'')\<rparr> =
     Inr (Some [0], \<lparr>clock = 40, radio_serial = map Some (ascii ''ab'')\<rparr>)"
proof -
  have "copy_serial_to_buffer [7, 7, 7, 7, 7] (of_char CHR '':'') 5 COMMAND_RESPONSE_TIMEOUT
     \<lparr>clock = 7,
        radio_serial = map Some (ascii ''1430:'') @ replicate 1429 (Some 97) @ [Some 98]\<rparr> =
     Inr (LITE_ESP8266_LENGTH_EXCEEDED, [49, 52, 51, 48, 0],
          \<lparr>clock = 12, radio_serial = Some 58 # replicate 1429 (Some 97) @ [Some 98]\<rparr>)"
    using length_field_four_digits [of "Some 58 # replicate 1429 (Some 97) @ [Some 98]"]
    by (simp add: ascii_def)
  moreover note get_response_packet_1430
  moreover have "copy_serial_to_buffer [7, 7, 7, 7, 7] (of_char CHR '':'') 5
       COMMAND_RESPONSE_TIMEOUT \<lparr>clock = 7, radio_serial = map Some (ascii ''12'')\<rparr> =
     Inr (LITE_ESP8266_TIMEOUT, [49, 50, 7, 7, 7], \<lparr>clock = 1008, radio_serial = []\<rparr>)"
    by code_simp
  moreover have "get_response_packet 3 20 [7, 7, 7, 7, 7]
     \<lparr>clock = 0, radio_serial = map Some (ascii ''+IPD,12'')\<rparr> =
     Inr (Some [0, 0, 0], \<lparr>clock = 1010, radio_serial = []\<rparr>)"
    by code_simp
  moreover have "copy_serial_to_buffer (replicate 16 7) 13 16 COMMAND_RESPONSE_TIMEOUT
     \<lparr>clock = 18,
        radio_serial =
          map Some (ascii ''0000000000000002'' @ [13, 10, 13, 10] @ ascii ''ab'')\<rparr> =
     Inr (LITE_ESP8266_LENGTH_EXCEEDED, replicate 15 48 @ [0],
          \<lparr>clock = 34,
             radio_serial = map Some (ascii ''2'' @ [13, 10, 13, 10] @ ascii ''ab'')\<rparr>)"
    by code_simp
  moreover have "get_http_response 3 5000 (replicate 16 7)
     \<lparr>clock = 0,
        radio_serial =
          map Some (ascii ''Content-Length: 0000000000000002'' @ [13, 10, 13, 10] @
            ascii ''ab'')\<rparr> =
     Inr (Some [0], \<lparr>clock = 40, radio_serial = map Some (ascii ''ab'')\<rparr>)"
    by code_simp
  ultimately show ?thesis by (intro conjI)
qed


section \<open>read_for_responses: the fail string first\<close>

lemma sint_byte: "sint (w :: 8 word) = (uint w + 128) mod 256 - 128"
  by (simp add: sint_uint signed_take_bit_eq_take_bit_shift take_bit_eq_mod)

lemma sint_byte_low: "uint (w :: 8 word) < 128 \<Longrightarrow> sint w = uint w"
  by (simp add: sint_byte)

lemma sint_byte_high:
  assumes "128 \<le> uint (w :: 8 word)"
  shows "sint w = uint w - 256"
proof -
  have "uint w < 256" using uint_lt2p [of w] by simp
  with assms have "(uint w + 128 - 256) mod 256 = uint w + 128 - 256" by simp
  then have "(uint w + 128) mod 256 = uint w - 128"
    by (simp only: minus_mod_self2)
  then show ?thesis by (simp add: sint_byte)
qed

text \<open>
  For a byte below 128 the comparison of the signed \<open>char\<close> with the unsigned byte from
  program memory is the comparison of the two bytes.
\<close>

lemma signed_compare:
  assumes "(e :: 8 word) < 128"
  shows "(sint (b :: 8 word) = uint e) = (b = e)"
proof -
  have e: "uint e < 128" using assms by (simp add: word_less_def)
  have "(sint b = uint e) = (uint b = uint e)"
  proof (cases "uint b < 128")
    case True
    then show ?thesis by (simp add: sint_byte_low)
  next
    case False
    then have "sint b = uint b - 256" by (simp add: sint_byte_high)
    moreover have "uint b < 256" using uint_lt2p [of b] by simp
    moreover have "0 \<le> uint e" by simp
    ultimately show ?thesis using e False by linarith
  qed
  then show ?thesis by (simp add: word_uint_eq_iff)
qed

text \<open>One pass through the loop of \<open>read_for_responses\<close>, for strings of bytes below 128.\<close>

lemma read_for_responses_iter_cases:
  assumes pc: "unat pc < strlen_P p" and pn: "strlen_P p < 256"
    and fc: "unat fc < strlen_P f" and fn: "strlen_P f < 256"
    and pa: "\<forall>x\<in>set p. x < 128" and fa: "\<forall>x\<in>set f. x < 128"
  shows "read_for_responses_iter p f (of_nat (strlen_P p)) (of_nat (strlen_P f)) d (pc, fc, s) =
    (if clock s < d then
       (case radio_serial s of
          [] \<Rightarrow> Next (pc, fc, s\<lparr>clock := clock s + 1\<rparr>)
        | None # r \<Rightarrow> Next (pc, fc, s\<lparr>clock := clock s + 1, radio_serial := r\<rparr>)
        | Some b # r \<Rightarrow>
            if b = p ! unat pc \<and> Suc (unat pc) = strlen_P p
            then Done LITE_ESP8266_SUCCESS
                   (pc + 1, fc, s\<lparr>clock := clock s + 1, radio_serial := r\<rparr>)
            else if b = f ! unat fc
            then (if Suc (unat fc) = strlen_P f
                  then Done LITE_ESP8266_FAILURE
                         (if b = p ! unat pc then pc + 1 else 0, fc + 1,
                          s\<lparr>clock := clock s + 1, radio_serial := r\<rparr>)
                  else Next (if b = p ! unat pc then pc + 1 else 0, fc + 1,
                             s\<lparr>clock := clock s + 1, radio_serial := r\<rparr>))
            else Next (if b = p ! unat pc then pc + 1 else 0, 0,
                       s\<lparr>clock := clock s + 1, radio_serial := r\<rparr>))
     else Done LITE_ESP8266_TIMEOUT (pc, fc, s\<lparr>clock := clock s + 1\<rparr>))"
proof -
  have lp: "unat pc < length p" using pc strlen_P_le [of p] by simp
  have lf: "unat fc < length f" using fc strlen_P_le [of f] by simp
  have rp: "pgm_read_byte_near p (unat pc) = Some (p ! unat pc)"
    using lp by (simp add: pgm_read_byte_near_def)
  have rf: "pgm_read_byte_near f (unat fc) = Some (f ! unat fc)"
    using lf by (simp add: pgm_read_byte_near_def)
  have ap: "p ! unat pc < 128" using pa lp by simp
  have af: "f ! unat fc < 128" using fa lf by simp
  show ?thesis
    by (simp add: read_for_responses_iter_def read_for_responses_fail_case_def millis_def
        available_def read_def rp rf Let_def signed_compare [OF ap] signed_compare [OF af]
        cursor_complete [OF pc pn] cursor_complete [OF fc fn]
        split: list.splits option.splits)
qed


lemma cursor_after_Cons_Some:
  assumes "unat (c :: 8 word) < strlen_P p" and "strlen_P p < 256"
    and "cursor_after p (unat c) (b # bs) = Some c'"
  shows "\<not> (b = p ! unat c \<and> Suc (unat c) = strlen_P p) \<and>
     unat (if b = p ! unat c then c + 1 else 0) < strlen_P p \<and>
     cursor_after p (unat (if b = p ! unat c then c + 1 else 0)) bs = Some c'"
proof -
  have len: "unat c < length p" using assms(1) strlen_P_le [of p] by simp
  note su = cursor_succ [OF assms(1, 2)]
  show ?thesis
  proof (cases "b = p ! unat c")
    case True
    with assms(3) len have ns: "Suc (unat c) \<noteq> strlen_P p"
      and "cursor_after p (Suc (unat c)) bs = Some c'"
      by (auto split: if_splits)
    with True assms(1) su show ?thesis by simp
  next
    case False
    with assms(1, 3) show ?thesis by simp
  qed
qed

lemma cursor_after_bound:
  "c < strlen_P p \<Longrightarrow> cursor_after p c bs = Some c' \<Longrightarrow> c' < strlen_P p"
  by (induction p c bs rule: cursor_after.induct) (auto split: if_splits)

lemma cursor_after_append:
  "cursor_after p c (a @ b) =
     (case cursor_after p c a of None \<Rightarrow> None | Some c' \<Rightarrow> cursor_after p c' b)"
  by (induction p c a rule: cursor_after.induct) auto

lemma read_for_responses_loop_prefix:
  assumes pn: "strlen_P p < 256" and fn: "strlen_P f < 256"
    and pa: "\<forall>x\<in>set p. x < 128" and fa: "\<forall>x\<in>set f. x < 128"
  shows "unat pc < strlen_P p \<Longrightarrow> unat fc < strlen_P f \<Longrightarrow> radio_serial s = ev @ rest \<Longrightarrow>
    unat (clock s) + length ev \<le> unat d \<Longrightarrow>
    cursor_after p (unat pc) (bytes_of ev) = Some pc' \<Longrightarrow>
    cursor_after f (unat fc) (bytes_of ev) = Some fc' \<Longrightarrow>
    read_for_responses_loop p f (of_nat (strlen_P p)) (of_nat (strlen_P f)) d (pc, fc, s) =
      read_for_responses_loop p f (of_nat (strlen_P p)) (of_nat (strlen_P f)) d
        (of_nat pc', of_nat fc',
         s\<lparr>clock := clock s + of_nat (length ev), radio_serial := rest\<rparr>)"
proof (induction ev arbitrary: pc fc s)
  case Nil
  then have "(of_nat pc' :: 8 word) = pc" and "(of_nat fc' :: 8 word) = fc"
    and "s\<lparr>radio_serial := rest\<rparr> = s" by auto
  then show ?case by simp
next
  case (Cons x ev)
  note it = read_for_responses_iter_cases [OF Cons.prems(1) pn Cons.prems(2) fn pa fa, of d s]
  note unfold = read_for_responses_loop.simps
    [of p f "of_nat (strlen_P p)" "of_nat (strlen_P f)" d "(pc, fc, s)"]
  have lt: "clock s < d" using Cons.prems(4) by (simp add: word_less_nat_alt)
  let ?s' = "s\<lparr>clock := clock s + 1, radio_serial := ev @ rest\<rparr>"
  have tm: "unat (clock ?s') + length ev \<le> unat d"
    using Cons.prems(4) clock_succ [OF lt] by simp
  have rs: "radio_serial ?s' = ev @ rest" by simp
  show ?case
  proof (cases x)
    case None
    with Cons.prems have cp: "cursor_after p (unat pc) (bytes_of ev) = Some pc'"
      and cf: "cursor_after f (unat fc) (bytes_of ev) = Some fc'" by simp_all
    from Cons.IH [OF Cons.prems(1, 2) rs tm cp cf] None lt Cons.prems(3)
    show ?thesis by (simp add: unfold it add.assoc)
  next
    case (Some b)
    let ?pc = "if b = p ! unat pc then pc + 1 else 0"
    let ?fc = "if b = f ! unat fc then fc + 1 else 0"
    from Cons.prems(5) Some have "cursor_after p (unat pc) (b # bytes_of ev) = Some pc'" by simp
    note P = cursor_after_Cons_Some [OF Cons.prems(1) pn this]
    from Cons.prems(6) Some have "cursor_after f (unat fc) (b # bytes_of ev) = Some fc'" by simp
    note F = cursor_after_Cons_Some [OF Cons.prems(2) fn this]
    have nx: "read_for_responses_iter p f (of_nat (strlen_P p)) (of_nat (strlen_P f)) d
        (pc, fc, s) = Next (?pc, ?fc, ?s')"
      using Some lt Cons.prems(3) P F by (simp add: it)
    from P F have p1: "unat ?pc < strlen_P p" and f1: "unat ?fc < strlen_P f"
      and cp: "cursor_after p (unat ?pc) (bytes_of ev) = Some pc'"
      and cf: "cursor_after f (unat ?fc) (bytes_of ev) = Some fc'" by blast+
    from Cons.IH [OF p1 f1 rs tm cp cf] show ?thesis
      by (simp add: unfold nx add.assoc)
  qed
qed

lemma read_for_responses_loop_fail:
  assumes pn: "strlen_P p < 256" and fn: "strlen_P f < 256"
    and pa: "\<forall>x\<in>set p. x < 128" and fa: "\<forall>x\<in>set f. x < 128"
  shows "unat pc < strlen_P p \<Longrightarrow> unat fc < strlen_P f \<Longrightarrow> radio_serial s = ev @ rest \<Longrightarrow>
    unat (clock s) + length ev \<le> unat d \<Longrightarrow> ev \<noteq> [] \<Longrightarrow> last ev \<noteq> None \<Longrightarrow>
    cursor_after p (unat pc) (bytes_of ev) = Some pc' \<Longrightarrow>
    bytes_of ev = drop (unat fc) (take (strlen_P f) f) \<Longrightarrow>
    read_for_responses_loop p f (of_nat (strlen_P p)) (of_nat (strlen_P f)) d (pc, fc, s) =
      Inr (LITE_ESP8266_FAILURE,
           s\<lparr>clock := clock s + of_nat (length ev), radio_serial := rest\<rparr>)"
proof (induction ev arbitrary: pc fc s)
  case Nil
  then show ?case by simp
next
  case (Cons x ev)
  note it = read_for_responses_iter_cases [OF Cons.prems(1) pn Cons.prems(2) fn pa fa, of d s]
  note unfold = read_for_responses_loop.simps
    [of p f "of_nat (strlen_P p)" "of_nat (strlen_P f)" d "(pc, fc, s)"]
  have lt: "clock s < d" using Cons.prems(4) by (simp add: word_less_nat_alt)
  let ?s' = "s\<lparr>clock := clock s + 1, radio_serial := ev @ rest\<rparr>"
  have tm: "unat (clock ?s') + length ev \<le> unat d"
    using Cons.prems(4) clock_succ [OF lt] by simp
  have rs: "radio_serial ?s' = ev @ rest" by simp
  have len: "unat fc < length (take (strlen_P f) f)"
    using Cons.prems(2) strlen_P_le [of f] by simp
  note dr = Cons_nth_drop_Suc [OF len, symmetric]
  show ?case
  proof (cases x)
    case None
    with Cons.prems have ne: "ev \<noteq> []" and la: "last ev \<noteq> None"
      and cp: "cursor_after p (unat pc) (bytes_of ev) = Some pc'"
      and rem: "bytes_of ev = drop (unat fc) (take (strlen_P f) f)"
      by (auto split: if_splits)
    from Cons.IH [OF Cons.prems(1, 2) rs tm ne la cp rem] None lt Cons.prems(3)
    show ?thesis by (simp add: unfold it add.assoc)
  next
    case (Some b)
    let ?pc = "if b = p ! unat pc then pc + 1 else 0"
    from Cons.prems(7) Some have "cursor_after p (unat pc) (b # bytes_of ev) = Some pc'" by simp
    note P = cursor_after_Cons_Some [OF Cons.prems(1) pn this]
    from Cons.prems(8) Some dr Cons.prems(2)
    have b: "b = f ! unat fc"
      and rem: "bytes_of ev = drop (Suc (unat fc)) (take (strlen_P f) f)"
      by simp_all
    show ?thesis
    proof (cases "Suc (unat fc) = strlen_P f")
      case True
      with rem strlen_P_le [of f] have "bytes_of ev = []" by simp
      with Cons.prems(6) bytes_of_Nil_last [of ev] have "ev = []" by (auto split: if_splits)
      with Some b True lt Cons.prems(3) P show ?thesis by (simp add: unfold it)
    next
      case False
      then have f1: "unat (fc + 1) < strlen_P f"
        using Cons.prems(2) cursor_succ [OF Cons.prems(2) fn] by simp
      from False Cons.prems(2) rem strlen_P_le [of f] have "bytes_of ev \<noteq> []" by simp
      then have ne: "ev \<noteq> []" by auto
      with Cons.prems(6) have la: "last ev \<noteq> None" by simp
      from rem have rem': "bytes_of ev = drop (unat (fc + 1)) (take (strlen_P f) f)"
        by (simp add: cursor_succ [OF Cons.prems(2) fn])
      have nx: "read_for_responses_iter p f (of_nat (strlen_P p)) (of_nat (strlen_P f)) d
          (pc, fc, s) = Next (?pc, fc + 1, ?s')"
        using Some lt Cons.prems(3) P b False by (simp add: it)
      from P have p1: "unat ?pc < strlen_P p"
        and cp: "cursor_after p (unat ?pc) (bytes_of ev) = Some pc'" by blast+
      from Cons.IH [OF p1 f1 rs tm ne la cp rem'] show ?thesis
        by (simp add: unfold nx add.assoc)
    qed
  qed
qed


text \<open>A cursor that completes has read the string: no occurrence, no completion.\<close>

lemma cursor_after_completes:
  "cursor_after p c bs = None \<Longrightarrow>
     \<exists>pre post. take c p @ bs = pre @ take (strlen_P p) p @ post"
proof (induction p c bs rule: cursor_after.induct)
  case (1 p c)
  then show ?case by simp
next
  case (2 p c b bs)
  show ?case
  proof (cases "c < length p \<and> b = p ! c")
    case True
    then have tk: "take c p @ b # bs = take (Suc c) p @ bs"
      by (simp add: take_Suc_conv_app_nth)
    show ?thesis
    proof (cases "Suc c = strlen_P p")
      case True
      with tk have "take c p @ b # bs = [] @ take (strlen_P p) p @ bs" by simp
      then show ?thesis by blast
    next
      case False
      with 2 \<open>c < length p \<and> b = p ! c\<close> obtain pre post where
        "take (Suc c) p @ bs = pre @ take (strlen_P p) p @ post" by auto
      with tk show ?thesis by auto
    qed
  next
    case False
    with 2 obtain pre post where "bs = pre @ take (strlen_P p) p @ post" by auto
    then have "take c p @ b # bs = (take c p @ b # pre) @ take (strlen_P p) p @ post" by simp
    then show ?thesis by blast
  qed
qed

lemma cursor_after_absent:
  assumes "0 \<notin> set p" and "\<not> (\<exists>pre post. bs = pre @ p @ post)"
  shows "cursor_after p 0 bs \<noteq> None"
proof
  assume "cursor_after p 0 bs = None"
  from cursor_after_completes [OF this] assms(1) strlen_P_no_zero [of p]
  have "\<exists>pre post. bs = pre @ p @ post" by simp
  with assms(2) show False by contradiction
qed

text \<open>
  C6, amended: let the pass and the fail string have 1 to 255 bytes each, all below 128
  (the received byte is held in a signed \<open>char\<close>, so a byte from 128 up never compares
  equal). Let the line carry the bytes \<open>before @ fail\<close>, in the stretch \<open>ev\<close> that ends with
  the last byte of \<open>fail\<close>, where the bytes \<open>before\<close> leave the fail cursor at zero, and
  where the pass cursor completes nowhere in \<open>before @ fail\<close> (by \<open>cursor_after_absent\<close>
  that holds whenever \<open>before @ fail\<close> does not contain the pass string); the stretch
  takes fewer polls than the timeout has milliseconds and the deadline does not wrap
  around. Then \<open>read_for_responses\<close> returns Failure, with the line left behind the fail
  string.
\<close>

theorem read_for_responses_fail_first:
  assumes "pass \<noteq> []" and "length pass < 256" and "0 \<notin> set pass"
    and "\<forall>x\<in>set pass. x < 128"
    and "fail \<noteq> []" and "length fail < 256" and "0 \<notin> set fail"
    and "\<forall>x\<in>set fail. x < 128"
    and "radio_serial s = ev @ rest"
    and "bytes_of ev = before @ fail"
    and "last ev \<noteq> None"
    and "cursor_after fail 0 before = Some 0"
    and "cursor_after pass 0 (before @ fail) \<noteq> None"
    and "length ev < unat timeout_ms"
    and "unat (clock s) + unat timeout_ms < 2 ^ 32"
  shows "read_for_responses pass fail timeout_ms s =
     Inr (LITE_ESP8266_FAILURE,
          s\<lparr>clock := clock s + 1 + of_nat (length ev), radio_serial := rest\<rparr>)"
proof -
  have slp: "strlen_P pass = length pass" using assms(3) by (rule strlen_P_no_zero)
  have slf: "strlen_P fail = length fail" using assms(7) by (rule strlen_P_no_zero)
  have pn: "strlen_P pass < 256" and pz: "unat (0 :: 8 word) < strlen_P pass"
    using assms(1, 2) slp by simp_all
  have fn: "strlen_P fail < 256" and fz: "unat (0 :: 8 word) < strlen_P fail"
    using assms(5, 6) slf by simp_all
  obtain c1 c2 where cp1: "cursor_after pass 0 before = Some c1"
    and cp2: "cursor_after pass c1 fail = Some c2"
    using assms(13) by (auto simp: cursor_after_append split: option.splits)
  have c1: "c1 < strlen_P pass" using cursor_after_bound [OF _ cp1] pz by simp
  then have uc1: "unat (of_nat c1 :: 8 word) = c1" using pn by (simp add: unat_of_nat)
  obtain ev1 ev2 where ev: "ev = ev1 @ ev2" and b1: "bytes_of ev1 = before"
    and b2: "bytes_of ev2 = fail"
    using bytes_of_split [OF assms(10)] by blast
  from b2 assms(5) have ne: "ev2 \<noteq> []" by auto
  with assms(11) ev have la: "last ev2 \<noteq> None" by simp
  let ?d = "clock s + ucast timeout_ms"
  let ?s1 = "s\<lparr>clock := clock s + 1\<rparr>"
  let ?s2 = "s\<lparr>clock := clock s + 1 + of_nat (length ev1), radio_serial := ev2 @ rest\<rparr>"
  have ud: "unat ?d = unat (clock s) + unat timeout_ms"
    using assms(15) by (rule deadline_no_wrap)
  have u1: "unat (clock s + 1) = unat (clock s) + 1"
    using assms(14, 15) by (simp add: unat_word_ariths)
  have t1: "unat (clock ?s1) + length ev1 \<le> unat ?d"
    using assms(14) ev by (simp add: ud u1)
  have u2: "unat (clock s + 1 + of_nat (length ev1)) = unat (clock s) + 1 + length ev1"
    using clock_advance [OF t1] by (simp add: u1)
  have t2: "unat (clock ?s2) + length ev2 \<le> unat ?d"
    using assms(14) ev by (simp add: ud u2)
  have r1: "radio_serial ?s1 = ev1 @ ev2 @ rest" using assms(9) ev by simp
  have r2: "radio_serial ?s2 = ev2 @ rest" by simp
  have p1: "cursor_after pass (unat (0 :: 8 word)) (bytes_of ev1) = Some c1"
    using cp1 b1 by simp
  have f1: "cursor_after fail (unat (0 :: 8 word)) (bytes_of ev1) = Some 0"
    using assms(12) b1 by simp
  have p2: "cursor_after pass (unat (of_nat c1 :: 8 word)) (bytes_of ev2) = Some c2"
    using cp2 b2 uc1 by simp
  have f2: "bytes_of ev2 = drop (unat (0 :: 8 word)) (take (strlen_P fail) fail)"
    using b2 slf by simp
  have q1: "unat (of_nat c1 :: 8 word) < strlen_P pass" using c1 uc1 by simp
  have "read_for_responses pass fail timeout_ms s =
      read_for_responses_loop pass fail (of_nat (strlen_P pass)) (of_nat (strlen_P fail)) ?d
        (0, 0, ?s1)"
    by (simp add: read_for_responses_def millis_def)
  also have "\<dots> =
      read_for_responses_loop pass fail (of_nat (strlen_P pass)) (of_nat (strlen_P fail)) ?d
        (of_nat c1, 0, ?s2)"
    using read_for_responses_loop_prefix [OF pn fn assms(4, 8) pz fz r1 t1 p1 f1] by simp
  also have "\<dots> = Inr (LITE_ESP8266_FAILURE,
      s\<lparr>clock := clock s + 1 + of_nat (length ev1) + of_nat (length ev2),
        radio_serial := rest\<rparr>)"
    using read_for_responses_loop_fail [OF pn fn assms(4, 8) q1 fz r2 t2 ne la p2 f2] by simp
  finally show ?thesis using ev by (simp add: add.assoc)
qed

text \<open>
  C6, as the specification states it: a stream that contains the fail string before any
  pass string makes \<open>read_for_responses\<close> return Failure. The line \<open>AAB\<close> contains the
  fail string \<open>AB\<close> and nowhere the pass string \<open>OK\<close>; the second \<open>A\<close> resets the fail
  cursor and is dropped, and the call times out.
\<close>

theorem read_for_responses_overlap_counterexample:
  "ascii ''AAB'' = [65] @ ascii ''AB'' \<and>
   read_for_responses (ascii ''OK'') (ascii ''AB'') 20
     \<lparr>clock = 0, radio_serial = map Some (ascii ''AAB'')\<rparr> =
     Inr (LITE_ESP8266_TIMEOUT, \<lparr>clock = 21, radio_serial = []\<rparr>)"
  by code_simp

theorem read_for_responses_fail_first_witness:
  "read_for_responses (ascii ''OK'') (ascii ''NO'') 100
     \<lparr>clock = 0, radio_serial = [Some 79, None, Some 78, Some 79, Some 75]\<rparr> =
     Inr (LITE_ESP8266_FAILURE, \<lparr>clock = 5, radio_serial = [Some 75]\<rparr>)"
  using read_for_responses_fail_first
    [of "ascii ''OK''" "ascii ''NO''"
      "\<lparr>clock = 0, radio_serial = [Some 79, None, Some 78, Some 79, Some 75]\<rparr>"
      "[Some 79, None, Some 78, Some 79]" "[Some 75]" "[79]" 100]
  by (simp add: ascii_def strlen_P_def)


section \<open>read_for_responses: a byte that completes both strings\<close>

text \<open>
  One pass through the loop when the byte that waits completes the pass string: the pass
  case is checked first and returns, whatever the fail counter holds.
\<close>

lemma read_for_responses_loop_pass_first:
  assumes "clock s < deadline"
    and "radio_serial s = Some b # r"
    and "pgm_read_byte_near p (unat pass_matched_chars) = Some e"
    and "sint b = uint e"
    and "pass_matched_chars + 1 = pass_response_length"
  shows "read_for_responses_loop p f pass_response_length fail_response_length deadline
           (pass_matched_chars, fail_matched_characters, s) =
         Inr (LITE_ESP8266_SUCCESS, s\<lparr>clock := clock s + 1, radio_serial := r\<rparr>)"
  using assms
  by (subst read_for_responses_loop.simps)
    (simp add: read_for_responses_iter_def millis_def available_def read_def)

text \<open>
  C10: when one incoming byte completes the pass string and the fail string at once,
  \<open>read_for_responses\<close> returns Success, because the pass case is checked first and
  returns before the fail case is looked at. The line carries the stretch \<open>ev\<close> and then
  the byte \<open>b\<close>. The bytes of \<open>ev\<close> leave the pass cursor and the fail cursor each one
  short of its string without completing either, and \<open>b\<close> is the last byte of both
  strings. Both strings have 1 to 255 bytes, all below 128, \<open>b\<close> arrives within fewer
  polls than the timeout, and the deadline does not wrap around the 32-bit clock. Then
  the call returns Success and leaves the line right behind \<open>b\<close>.
\<close>

theorem read_for_responses_tie_is_success:
  assumes "pass \<noteq> []" and "length pass < 256" and "0 \<notin> set pass"
    and "\<forall>x\<in>set pass. x < 128"
    and "fail \<noteq> []" and "length fail < 256" and "0 \<notin> set fail"
    and "\<forall>x\<in>set fail. x < 128"
    and "radio_serial s = ev @ Some b # rest"
    and "cursor_after pass 0 (bytes_of ev) = Some (length pass - 1)"
    and "cursor_after fail 0 (bytes_of ev) = Some (length fail - 1)"
    and "last pass = b" and "last fail = b"
    and "length ev + 1 < unat timeout_ms"
    and "unat (clock s) + unat timeout_ms < 2 ^ 32"
  shows "read_for_responses pass fail timeout_ms s =
     Inr (LITE_ESP8266_SUCCESS,
          s\<lparr>clock := clock s + 2 + of_nat (length ev), radio_serial := rest\<rparr>)"
proof -
  have slp: "strlen_P pass = length pass" using assms(3) by (rule strlen_P_no_zero)
  have slf: "strlen_P fail = length fail" using assms(7) by (rule strlen_P_no_zero)
  have pn: "strlen_P pass < 256" and pz: "unat (0 :: 8 word) < strlen_P pass"
    using assms(1, 2) slp by simp_all
  have fn: "strlen_P fail < 256" and fz: "unat (0 :: 8 word) < strlen_P fail"
    using assms(5, 6) slf by simp_all
  let ?d = "clock s + ucast timeout_ms"
  let ?s1 = "s\<lparr>clock := clock s + 1\<rparr>"
  let ?s2 = "s\<lparr>clock := clock s + 1 + of_nat (length ev), radio_serial := Some b # rest\<rparr>"
  let ?pc = "of_nat (length pass - 1) :: 8 word"
  let ?fc = "of_nat (length fail - 1) :: 8 word"
  have ud: "unat ?d = unat (clock s) + unat timeout_ms"
    using assms(15) by (rule deadline_no_wrap)
  have u1: "unat (clock s + 1) = unat (clock s) + 1"
    using assms(14, 15) by (simp add: unat_word_ariths)
  have t1: "unat (clock ?s1) + length ev \<le> unat ?d"
    using assms(14) by (simp add: ud u1)
  have u2: "unat (clock s + 1 + of_nat (length ev)) = unat (clock s) + 1 + length ev"
    using clock_advance [OF t1] by (simp add: u1)
  have lt: "clock ?s2 < ?d"
    using assms(14) by (simp add: word_less_nat_alt ud u2)
  have r1: "radio_serial ?s1 = ev @ Some b # rest" using assms(9) by simp
  have p1: "cursor_after pass (unat (0 :: 8 word)) (bytes_of ev) = Some (length pass - 1)"
    using assms(10) by simp
  have f1: "cursor_after fail (unat (0 :: 8 word)) (bytes_of ev) = Some (length fail - 1)"
    using assms(11) by simp
  have upc: "unat ?pc = length pass - 1" using assms(2) by (simp add: unat_of_nat)
  have "pgm_read_byte_near pass (length pass - 1) = Some (last pass)"
    using assms(1) by (simp add: pgm_read_byte_near_def last_conv_nth)
  then have rd: "pgm_read_byte_near pass (unat ?pc) = Some (last pass)"
    by (simp only: upc)
  have "last pass \<in> set pass" using assms(1) by simp
  with assms(4) have "last pass < 128" by blast
  from signed_compare [OF this, of b] assms(12) have cmp: "sint b = uint (last pass)" by simp
  have "?pc + 1 = of_nat (Suc (length pass - 1))" by simp
  with assms(1) have full: "?pc + 1 = of_nat (strlen_P pass)" by (simp add: slp)
  have "read_for_responses pass fail timeout_ms s =
      read_for_responses_loop pass fail (of_nat (strlen_P pass)) (of_nat (strlen_P fail)) ?d
        (0, 0, ?s1)"
    by (simp add: read_for_responses_def millis_def)
  also have "\<dots> =
      read_for_responses_loop pass fail (of_nat (strlen_P pass)) (of_nat (strlen_P fail)) ?d
        (?pc, ?fc, ?s2)"
    using read_for_responses_loop_prefix [OF pn fn assms(4, 8) pz fz r1 t1 p1 f1] by simp
  also have "\<dots> = Inr (LITE_ESP8266_SUCCESS,
      ?s2\<lparr>clock := clock ?s2 + 1, radio_serial := rest\<rparr>)"
    by (rule read_for_responses_loop_pass_first [OF lt _ rd cmp full]) simp
  also have "?s2\<lparr>clock := clock ?s2 + 1, radio_serial := rest\<rparr> =
      s\<lparr>clock := clock s + 2 + of_nat (length ev), radio_serial := rest\<rparr>"
    by simp
  finally show ?thesis .
qed


text \<open>
  The pass string \<open>AB\<close> and the fail string \<open>B\<close> on the line \<open>A\<close>, an empty poll, \<open>B\<close>,
  \<open>C\<close>: after \<open>A\<close> the cursors are 1 and 0, and the byte \<open>B\<close> completes both strings.
\<close>

theorem read_for_responses_tie_is_success_witness:
  "read_for_responses (ascii ''AB'') (ascii ''B'') 100
     \<lparr>clock = 0, radio_serial = [Some 65, None, Some 66, Some 67]\<rparr> =
     Inr (LITE_ESP8266_SUCCESS, \<lparr>clock = 4, radio_serial = [Some 67]\<rparr>)"
  using read_for_responses_tie_is_success
    [of "ascii ''AB''" "ascii ''B''"
      "\<lparr>clock = 0, radio_serial = [Some 65, None, Some 66, Some 67]\<rparr>"
      "[Some 65, None]" 66 "[Some 67]" 100]
  by (simp add: ascii_def strlen_P_def)


section \<open>Capacities from which the bounds hold\<close>

text \<open>
  From capacity 2 on, and with a buffer at least as long as declared, the defect of the
  small capacities is gone: \<open>copy_serial_to_buffer\<close> never writes out of bounds, leaves
  every byte from index \<open>max_bytes\<close> on as it was, and on Success and on LengthExceeded
  there is a zero byte below index \<open>max_bytes\<close>.
\<close>

lemma copy_serial_to_buffer_loop_safe:
  assumes cap: "2 \<le> unat max_bytes"
  shows "unat max_bytes \<le> length buffer \<Longrightarrow> unat bytes_read < unat max_bytes - 1 \<Longrightarrow>
     \<exists>r buffer' s'.
       copy_serial_to_buffer_loop buffer read_until max_bytes d bytes_read s =
         Inr (r, buffer', s') \<and>
       length buffer' = length buffer \<and>
       drop (unat max_bytes) buffer' = drop (unat max_bytes) buffer \<and>
       (r \<noteq> LITE_ESP8266_TIMEOUT \<longrightarrow> (\<exists>k < unat max_bytes. buffer' ! k = 0))"
proof (induction "unat d - unat (clock s)" arbitrary: buffer bytes_read s rule: less_induct)
  case less
  note unfold = copy_serial_to_buffer_loop.simps [of buffer read_until max_bytes d bytes_read s]
  have pos: "0 < unat max_bytes" using cap by simp
  show ?case
  proof (cases "clock s < d")
    case False
    then show ?thesis by (simp add: unfold millis_def)
  next
    case True
    note tick = clock_tick [OF True]
    show ?thesis
    proof (cases "radio_serial s")
      case Nil
      let ?s' = "s\<lparr>clock := clock s + 1\<rparr>"
      have "unat d - unat (clock ?s') < unat d - unat (clock s)" using tick by simp
      from less.hyps [OF this less.prems] True Nil show ?thesis
        by (simp add: unfold millis_def available_def)
    next
      case (Cons x r)
      let ?s' = "s\<lparr>clock := clock s + 1, radio_serial := r\<rparr>"
      have dec: "unat d - unat (clock ?s') < unat d - unat (clock s)" using tick by simp
      show ?thesis
      proof (cases x)
        case None
        from less.hyps [OF dec less.prems] True Cons None show ?thesis
          by (simp add: unfold millis_def available_def)
      next
        case (Some b)
        have ib: "unat bytes_read < length buffer" and ic: "unat bytes_read < unat max_bytes"
          using less.prems by simp_all
        show ?thesis
        proof (cases "b = read_until")
          case b: True
          have "buffer[unat bytes_read := 0] ! unat bytes_read = 0" using ib by simp
          with ic have "\<exists>k < unat max_bytes. buffer[unat bytes_read := 0] ! k = 0" by blast
          with True Cons Some b ib ic show ?thesis
            by (simp add: unfold millis_def available_def read_def poke_def)
        next
          case nb: False
          from less.prems(2) have room: "unat bytes_read + 1 < unat max_bytes" by simp
          note su = count_succ [OF room]
          have i1: "unat (bytes_read + 1) < length buffer" using room less.prems(1) su by simp
          show ?thesis
          proof (cases "max_bytes - 1 \<le> bytes_read + 1")
            case full: True
            have "buffer[unat bytes_read := b, unat (bytes_read + 1) := 0] !
                unat (bytes_read + 1) = 0" using i1 by simp
            with room su have "\<exists>k < unat max_bytes.
                buffer[unat bytes_read := b, unat (bytes_read + 1) := 0] ! k = 0"
              by (metis Suc_eq_plus1)
            with True Cons Some nb ib i1 full room su show ?thesis
              by (simp add: unfold millis_def available_def read_def poke_def)
          next
            case nfull: False
            then have r': "unat (bytes_read + 1) < unat max_bytes - 1"
              by (simp add: word_le_nat_alt capacity_pred [OF pos])
            have lb: "unat max_bytes \<le> length (buffer[unat bytes_read := b])"
              using less.prems(1) by simp
            from less.hyps [OF dec lb r', of ] True Cons Some nb ib ic nfull
            show ?thesis
              by (simp add: unfold millis_def available_def read_def poke_def)
          qed
        qed
      qed
    qed
  qed
qed

lemma copy_serial_to_buffer_safe:
  assumes "2 \<le> unat max_bytes" and "unat max_bytes \<le> length buffer"
  shows "\<exists>r buffer' s'.
       copy_serial_to_buffer buffer read_until max_bytes timeout_ms s = Inr (r, buffer', s') \<and>
       length buffer' = length buffer \<and>
       drop (unat max_bytes) buffer' = drop (unat max_bytes) buffer \<and>
       (r \<noteq> LITE_ESP8266_TIMEOUT \<longrightarrow> (\<exists>k < unat max_bytes. buffer' ! k = 0))"
proof -
  have "unat (0 :: 16 word) < unat max_bytes - 1" using assms(1) by simp
  from copy_serial_to_buffer_loop_safe [OF assms this] show ?thesis
    by (simp add: copy_serial_to_buffer_def millis_def)
qed

text \<open>
  From \<open>max_allocate_bytes = 1\<close> on the region has at least one byte, and \<open>data_length + 1\<close>
  bytes when the length is below the ceiling.
\<close>

lemma bytes_allocated_room:
  assumes "0 < unat max_allocate_bytes"
  shows "0 < unat (bytes_allocated max_allocate_bytes data_length) \<and>
     (data_length < max_allocate_bytes \<longrightarrow>
        unat (bytes_allocated max_allocate_bytes data_length) = unat data_length + 1)"
proof (cases "data_length < max_allocate_bytes")
  case True
  then have "unat (data_length + 1) = Suc (unat data_length)" by (rule index_succ)
  with True show ?thesis by (simp add: bytes_allocated_def)
next
  case False
  with assms show ?thesis by (simp add: bytes_allocated_def)
qed


end
